theory Spec2Isabelle
  imports Main "HOL-Library.Word" "HOL-Library.Multiset"
begin

section \<open>Machine types and error numbers\<close>

text \<open>
  The driver is built for a 64-bit kernel (4.15.6): \<^verbatim>\<open>unsigned long\<close> and
  \<^verbatim>\<open>uint64_t\<close> are 64-bit words whose arithmetic wraps around,
  \<^verbatim>\<open>unsigned int\<close> and \<^verbatim>\<open>atomic_t\<close> are 32-bit words.  Return codes of
  type \<^verbatim>\<open>int\<close> are modelled as integers; the only values the modelled functions
  produce are 0, small positive identifiers and negated error numbers.
\<close>

type_synonym u64 = "64 word"
type_synonym u32 = "32 word"

definition EINTR :: int where "EINTR = 4"
definition ENOMEM :: int where "ENOMEM = 12"
definition ENOSPC :: int where "ENOSPC = 28"
definition INT_MAX :: int where "INT_MAX = 2147483647"

section \<open>The kernel's interval tree\<close>

text \<open>
  \<^verbatim>\<open>struct interval_tree_node\<close> and the functions on it belong to the Linux
  kernel (\<^verbatim>\<open>linux/interval_tree.h\<close>), not to the driver.  A tree is represented by
  the in-order sequence of its nodes.  The structures of the driver that embed an
  \<^verbatim>\<open>interval_tree_node\<close> extend this record, so \<^verbatim>\<open>container_of\<close> is the identity.

  \<^item> \<^verbatim>\<open>interval_tree_insert\<close> descends to the left only when the new start is
    strictly smaller, so a node is placed behind all nodes whose start is not larger.
  \<^item> \<^verbatim>\<open>interval_tree_iter_first(root, start, last)\<close> returns the leftmost node
    with \<^verbatim>\<open>node->start <= last && start <= node->last\<close>, or \<^verbatim>\<open>NULL\<close>.
  \<^item> \<^verbatim>\<open>interval_tree_iter_next(node, start, last)\<close> returns the next such node
    behind \<^verbatim>\<open>node\<close>.
\<close>

record interval_tree_node =
  it_start :: u64
  it_last :: u64

definition it_overlaps :: "'a interval_tree_node_scheme \<Rightarrow> u64 \<Rightarrow> u64 \<Rightarrow> bool" where
  "it_overlaps n s l \<longleftrightarrow> it_start n \<le> l \<and> s \<le> it_last n"

definition interval_tree_insert ::
  "'a interval_tree_node_scheme \<Rightarrow> 'a interval_tree_node_scheme list
     \<Rightarrow> 'a interval_tree_node_scheme list" where
  "interval_tree_insert node root =
     takeWhile (\<lambda>x. it_start x \<le> it_start node) root @
     node # dropWhile (\<lambda>x. it_start x \<le> it_start node) root"

definition interval_tree_remove ::
  "'a interval_tree_node_scheme \<Rightarrow> 'a interval_tree_node_scheme list
     \<Rightarrow> 'a interval_tree_node_scheme list" where
  "interval_tree_remove node root = remove1 node root"

definition interval_tree_iter_first ::
  "'a interval_tree_node_scheme list \<Rightarrow> u64 \<Rightarrow> u64 \<Rightarrow> 'a interval_tree_node_scheme option" where
  "interval_tree_iter_first root s l = find (\<lambda>x. it_overlaps x s l) root"

definition interval_tree_iter_next ::
  "'a interval_tree_node_scheme list \<Rightarrow> 'a interval_tree_node_scheme \<Rightarrow> u64 \<Rightarrow> u64
     \<Rightarrow> 'a interval_tree_node_scheme option" where
  "interval_tree_iter_next root node s l =
     find (\<lambda>x. it_overlaps x s l) (tl (dropWhile (\<lambda>x. x \<noteq> node) root))"

text \<open>The addresses an inclusive range \<open>[start, last]\<close> covers.\<close>

definition it_range :: "'a interval_tree_node_scheme \<Rightarrow> u64 set" where
  "it_range n = {it_start n .. it_last n}"

section \<open>The kernel's identifier allocator\<close>

text \<open>
  \<^verbatim>\<open>struct idr\<close> is the kernel's table from small integers to pointers, here an
  association list.  \<^verbatim>\<open>idr_alloc(idr, ptr, start, end, gfp)\<close> stores \<^verbatim>\<open>ptr\<close>
  under the smallest unused identifier that is at least \<^verbatim>\<open>start\<close> and below
  \<^verbatim>\<open>end\<close> (\<^verbatim>\<open>end <= 0\<close> stands for \<^verbatim>\<open>INT_MAX + 1\<close>); it returns
  \<^verbatim>\<open>-ENOMEM\<close> when it cannot get memory and \<^verbatim>\<open>-ENOSPC\<close> when no identifier
  is free.  Whether memory is available is an input of the model.  Among the
  \<open>length idr + 1\<close> identifiers from \<open>start\<close> on at least one is unused, so the
  search is bounded.
\<close>

type_synonym 'a idr = "(int \<times> 'a) list"

definition idr_find :: "'a idr \<Rightarrow> int \<Rightarrow> 'a option" where
  "idr_find idr handle = map_of idr handle"

definition idr_alloc :: "'a idr \<Rightarrow> 'a \<Rightarrow> int \<Rightarrow> int \<Rightarrow> bool \<Rightarrow> int \<times> 'a idr" where
  "idr_alloc idr ptr start end' have_memory =
     (if \<not> have_memory then (- ENOMEM, idr)
      else
        (case find (\<lambda>i. idr_find idr i = None) [start .. start + int (length idr)] of
           None \<Rightarrow> (- ENOSPC, idr)
         | Some i \<Rightarrow>
             if i \<le> (if 0 < end' then end' - 1 else INT_MAX)
             then (i, (i, ptr) # idr)
             else (- ENOSPC, idr)))"

definition idr_remove :: "'a idr \<Rightarrow> int \<Rightarrow> 'a idr" where
  "idr_remove idr handle = filter (\<lambda>e. fst e \<noteq> handle) idr"

section \<open>Process-scoped handle table (kfd\_process.c)\<close>

text \<open>
  \<^verbatim>\<open>struct kfd_bo\<close> embeds its interval tree node; \<^verbatim>\<open>mem\<close>, \<^verbatim>\<open>dev\<close> and
  \<^verbatim>\<open>kfd_ipc_obj\<close> are pointers, modelled as numbers with 0 for \<^verbatim>\<open>NULL\<close>.
  Of \<^verbatim>\<open>struct qcm_process_device\<close>, \<^verbatim>\<open>struct kfd_process_device\<close> and
  \<^verbatim>\<open>struct kfd_process\<close> these fields are kept: the eviction counter, the device,
  the handle table, the interval tree and the list of per-device data.
\<close>

record kfd_bo = interval_tree_node +
  mem :: nat
  dev :: nat
  kfd_ipc_obj :: nat

record qcm_process_device =
  evicted :: u32

record kfd_process_device =
  pdd_dev :: nat
  qpd :: qcm_process_device
  alloc_idr :: "kfd_bo idr"

record kfd_process =
  bo_interval_tree :: "kfd_bo list"
  per_device_data :: "kfd_process_device list"

definition MIN_IDR_ID :: int where "MIN_IDR_ID = 1"
definition MAX_IDR_ID :: int where "MAX_IDR_ID = 0"

text \<open>
  A dereference of the \<^verbatim>\<open>NULL\<close> pointer in kernel mode is a fault that ends
  the calling task; it is a result of its own.
\<close>

datatype fault = NULL_pointer_dereference

text \<open>
  \<open>new_pdd d\<close> is the entry that \<^verbatim>\<open>kfd_create_process_device_data\<close> sets up for
  the device \<open>d\<close>: the counter \<^verbatim>\<open>qpd.evicted\<close> is 0 and \<^verbatim>\<open>idr_init\<close> leaves the
  handle table empty.
\<close>

definition new_pdd :: "nat \<Rightarrow> kfd_process_device" where
  "new_pdd d = \<lparr>pdd_dev = d, qpd = \<lparr>evicted = 0\<rparr>, alloc_idr = []\<rparr>"

text \<open>
  What \<^verbatim>\<open>kfd_create_process_device_data\<close> gets from its surroundings: whether
  \<^verbatim>\<open>kzalloc\<close> of the entry succeeds, whether the device is of the family for which
  \<^verbatim>\<open>KFD_IS_SOC15\<close> holds, whether \<^verbatim>\<open>kzalloc\<close> of the doorbell bitmap succeeds,
  and the result of the callback \<^verbatim>\<open>create_process_vm\<close> (0 for success).
\<close>

record pdd_env =
  kzalloc_pdd :: bool
  is_soc15 :: bool
  kzalloc_doorbell_bitmap :: bool
  create_process_vm :: int

text \<open>
  \<^verbatim>\<open>init_doorbell_bitmap\<close> returns 0 for a device that is not of the SOC15 family
  and \<^verbatim>\<open>-ENOMEM\<close> when the bitmap cannot be allocated; the bits it sets in the
  bitmap are not part of the model.
\<close>

definition init_doorbell_bitmap :: "pdd_env \<Rightarrow> int" where
  "init_doorbell_bitmap env =
     (if \<not> is_soc15 env then 0
      else if \<not> kzalloc_doorbell_bitmap env then - ENOMEM
      else 0)"

text \<open>
  \<^verbatim>\<open>kfd_create_process_device_data(dev, p)\<close> returns \<^verbatim>\<open>NULL\<close> (\<open>None\<close>) when the
  entry cannot be allocated.  Otherwise it initialises the entry and puts it in front
  of \<^verbatim>\<open>p->per_device_data\<close>; when the doorbell bitmap or the VM cannot be set up
  it logs an error, takes the entry out of the list again, frees it and returns
  \<^verbatim>\<open>NULL\<close>.  The result holds the entry, the process and the messages written with
  \<^verbatim>\<open>pr_err\<close>.
\<close>

definition kfd_create_process_device_data ::
  "pdd_env \<Rightarrow> nat \<Rightarrow> kfd_process \<Rightarrow> kfd_process_device option \<times> kfd_process \<times> string list" where
  "kfd_create_process_device_data env d p =
     (if \<not> kzalloc_pdd env then (None, p, [])
      else
        let pdd = new_pdd d;
            p1 = p\<lparr>per_device_data := pdd # per_device_data p\<rparr>
        in
          if init_doorbell_bitmap env \<noteq> 0
          then (None, p1\<lparr>per_device_data := remove1 pdd (per_device_data p1)\<rparr>,
                [''Failed to init doorbell for process''])
          else if create_process_vm env \<noteq> 0
          then (None, p1\<lparr>per_device_data := remove1 pdd (per_device_data p1)\<rparr>,
                [''Failed to create process VM object''])
          else (Some pdd, p1, []))"

text \<open>
  The records of the live handles of a process: those in the handle tables of its
  devices.
\<close>

definition live_records :: "kfd_process \<Rightarrow> kfd_bo list" where
  "live_records p = concat (map (\<lambda>pdd. map snd (alloc_idr pdd)) (per_device_data p))"

text \<open>
  \<^verbatim>\<open>kfd_process_device_create_obj_handle(pdd, mem, start, length, ipc_obj)\<close>.
  The process \<open>p\<close> is \<^verbatim>\<open>pdd->process\<close>.  \<open>kzalloc_ok\<close> tells whether
  \<^verbatim>\<open>kzalloc\<close> returns memory, \<open>idr_ok\<close> whether \<^verbatim>\<open>idr_alloc\<close> gets memory.
  The record is linked into the process's interval tree before the identifier is
  allocated; when \<^verbatim>\<open>idr_alloc\<close> fails the record is freed and the negative
  \<^verbatim>\<open>handle\<close> is returned, and nothing takes the record out of the tree again.
\<close>

definition kfd_process_device_create_obj_handle ::
  "bool \<Rightarrow> bool \<Rightarrow> kfd_process \<Rightarrow> kfd_process_device \<Rightarrow> nat \<Rightarrow> u64 \<Rightarrow> u64 \<Rightarrow> nat
     \<Rightarrow> int \<times> kfd_process \<times> kfd_process_device" where
  "kfd_process_device_create_obj_handle kzalloc_ok idr_ok p pdd mem' start length' ipc_obj =
     (if \<not> kzalloc_ok then (- ENOMEM, p, pdd)
      else
        let buf_obj = \<lparr>it_start = start, it_last = start + length' - 1,
                       mem = mem', dev = pdd_dev pdd, kfd_ipc_obj = ipc_obj\<rparr>;
            p' = p\<lparr>bo_interval_tree := interval_tree_insert buf_obj (bo_interval_tree p)\<rparr>;
            (handle, idr') = idr_alloc (alloc_idr pdd) buf_obj MIN_IDR_ID MAX_IDR_ID idr_ok
        in (handle, p', pdd\<lparr>alloc_idr := idr'\<rparr>))"

definition kfd_process_device_find_bo :: "kfd_process_device \<Rightarrow> int \<Rightarrow> kfd_bo option" where
  "kfd_process_device_find_bo pdd handle =
     (if handle < 0 then None else idr_find (alloc_idr pdd) handle)"

text \<open>
  \<^verbatim>\<open>kfd_process_device_translate_handle\<close> reads \<^verbatim>\<open>buf_obj->mem\<close> from whatever
  \<^verbatim>\<open>kfd_process_device_find_bo\<close> returned, without a test for \<^verbatim>\<open>NULL\<close>.
\<close>

definition kfd_process_device_translate_handle ::
  "kfd_process_device \<Rightarrow> int \<Rightarrow> fault + nat" where
  "kfd_process_device_translate_handle pdd handle =
     (case kfd_process_device_find_bo pdd handle of
        None \<Rightarrow> Inl NULL_pointer_dereference
      | Some buf_obj \<Rightarrow> Inr (mem buf_obj))"

text \<open>
  \<^verbatim>\<open>kfd_process_device_remove_obj_handle\<close> returns at once for a negative handle;
  otherwise it reads \<^verbatim>\<open>buf_obj->kfd_ipc_obj\<close> from the result of
  \<^verbatim>\<open>kfd_process_device_find_bo\<close>, again without a test for \<^verbatim>\<open>NULL\<close>, takes
  the handle out of the table and the record out of the interval tree, and frees
  the record.  \<^verbatim>\<open>ipc_obj_put\<close> releases a reference that is not part of the model.
\<close>

definition kfd_process_device_remove_obj_handle ::
  "kfd_process \<Rightarrow> kfd_process_device \<Rightarrow> int \<Rightarrow> fault + kfd_process \<times> kfd_process_device" where
  "kfd_process_device_remove_obj_handle p pdd handle =
     (if handle < 0 then Inr (p, pdd)
      else
        (case kfd_process_device_find_bo pdd handle of
           None \<Rightarrow> Inl NULL_pointer_dereference
         | Some buf_obj \<Rightarrow>
             Inr (p\<lparr>bo_interval_tree := interval_tree_remove buf_obj (bo_interval_tree p)\<rparr>,
                  pdd\<lparr>alloc_idr := idr_remove (alloc_idr pdd) handle\<rparr>)))"

text \<open>
  \<^verbatim>\<open>kfd_process_find_bo_from_interval\<close>; the second component holds the messages
  written with \<^verbatim>\<open>pr_err\<close> by the call.
\<close>

definition kfd_process_find_bo_from_interval ::
  "kfd_process \<Rightarrow> u64 \<Rightarrow> u64 \<Rightarrow> kfd_bo option \<times> string list" where
  "kfd_process_find_bo_from_interval p start_addr last_addr =
     (case interval_tree_iter_first (bo_interval_tree p) start_addr last_addr of
        None \<Rightarrow> (None, [''does not relate to an existing buffer''])
      | Some it_node \<Rightarrow>
          (case interval_tree_iter_next (bo_interval_tree p) it_node start_addr last_addr of
             Some nxt \<Rightarrow> (None, [''spans more than a single BO''])
           | None \<Rightarrow> (Some it_node, [])))"

section \<open>MMU notifier contexts (amdgpu\_mn.c)\<close>

text \<open>
  \<^verbatim>\<open>struct amdgpu_mn_node\<close> embeds its interval tree node; \<^verbatim>\<open>bos\<close> is the head of
  the list of buffer objects linked through \<^verbatim>\<open>bo->mn_list\<close>, here the list of the
  addresses of these buffer objects, first entry first.  A buffer object has one
  \<^verbatim>\<open>mn_list\<close> entry, so it can be linked into one list at a time; the functions
  below are meant for buffer objects that are used that way
  (\<^verbatim>\<open>amdgpu_mn_register\<close> for one that is not linked yet).

  A notifier context is identified by its key: \<^verbatim>\<open>adev->mn_hash\<close> is searched for
  the key before a context is added, so it holds at most one context for a key and
  is a partial map from keys to contexts.  \<^verbatim>\<open>bo->mn\<close> holds the key of the context
  (\<open>None\<close> for \<^verbatim>\<open>NULL\<close>).

  \<^verbatim>\<open>struct amdgpu_bo\<close> and \<^verbatim>\<open>struct amdgpu_device\<close> are declared outside
  \<^verbatim>\<open>amdgpu_mn.c\<close>; the records keep what the file uses of them: the size that
  \<^verbatim>\<open>amdgpu_bo_size\<close> reads, \<^verbatim>\<open>bo->kfd_bo\<close> (0 for \<^verbatim>\<open>NULL\<close>), \<^verbatim>\<open>bo->mn\<close>,
  and \<^verbatim>\<open>adev->mn_hash\<close>.  The buffer objects are reached through their
  addresses, so the device record carries the memory that holds them.

  \<open>lock\<close> counts the read holds of the semaphore \<^verbatim>\<open>rmn->lock\<close>.  The write side
  is taken and dropped inside one call of \<^verbatim>\<open>amdgpu_mn_register\<close>,
  \<^verbatim>\<open>amdgpu_mn_unregister\<close> or \<^verbatim>\<open>amdgpu_mn_destroy\<close> and leaves no trace in the
  state between calls; the same holds for \<^verbatim>\<open>adev->mn_lock\<close>, \<^verbatim>\<open>mm->mmap_sem\<close>
  and the mutex \<^verbatim>\<open>read_lock\<close>.
\<close>

text \<open>
  Modelled from the spec: the kind of a context, graphics or compute.  The
  enumeration \<^verbatim>\<open>amdgpu_mn_type\<close> is declared in \<^verbatim>\<open>amdgpu_mn.h\<close>, which is not among
  the sources; \<^verbatim>\<open>amdgpu_mn.c\<close> uses its two values \<^verbatim>\<open>AMDGPU_MN_TYPE_GFX\<close> and
  \<^verbatim>\<open>AMDGPU_MN_TYPE_HSA\<close> as indices of \<^verbatim>\<open>amdgpu_mn_ops\<close> and adds them to the
  \<^verbatim>\<open>mm\<close> pointer in \<^verbatim>\<open>AMDGPU_MN_KEY\<close>; they are taken as 0 and 1.
\<close>

datatype amdgpu_mn_type = AMDGPU_MN_TYPE_GFX | AMDGPU_MN_TYPE_HSA

record amdgpu_mn_node = interval_tree_node +
  bos :: "nat list"

record amdgpu_mn =
  mm :: u64
  mn_type :: amdgpu_mn_type
  objects :: "amdgpu_mn_node list"
  lock :: int
  recursion :: u32

record amdgpu_bo =
  bo_size :: u64
  kfd_bo :: nat
  mn :: "u64 option"

record amdgpu_device =
  mn_hash :: "u64 \<rightharpoonup> amdgpu_mn"
  bo :: "nat \<Rightarrow> amdgpu_bo"

definition AMDGPU_MN_KEY :: "u64 \<Rightarrow> amdgpu_mn_type \<Rightarrow> u64" where
  "AMDGPU_MN_KEY m t = m + (case t of AMDGPU_MN_TYPE_GFX \<Rightarrow> 0 | AMDGPU_MN_TYPE_HSA \<Rightarrow> 1)"

text \<open>
  What a call of \<^verbatim>\<open>amdgpu_mn_register\<close> gets from its surroundings: the address
  space of the calling task, whether \<^verbatim>\<open>down_write_killable\<close> is interrupted,
  whether \<^verbatim>\<open>kzalloc\<close> of a context succeeds, the result of
  \<^verbatim>\<open>__mmu_notifier_register\<close> (0 or a negated error number) and whether
  \<^verbatim>\<open>kmalloc\<close> of a node succeeds.
\<close>

record mn_env =
  current_mm :: u64
  mmap_sem_killed :: bool
  kzalloc_rmn :: bool
  mmu_notifier_register :: int
  kmalloc_node :: bool

text \<open>
  \<^verbatim>\<open>amdgpu_mn_get\<close> returns \<^verbatim>\<open>ERR_PTR\<close> of an error number (\<open>Inl\<close>) or the
  context: its key together with the context found or created.
\<close>

definition amdgpu_mn_get ::
  "mn_env \<Rightarrow> amdgpu_device \<Rightarrow> amdgpu_mn_type \<Rightarrow> (int + u64 \<times> amdgpu_mn) \<times> amdgpu_device" where
  "amdgpu_mn_get env adev t =
     (let key = AMDGPU_MN_KEY (current_mm env) t in
      if mmap_sem_killed env then (Inl (- EINTR), adev)
      else
        (case mn_hash adev key of
           Some rmn \<Rightarrow> (Inr (key, rmn), adev)
         | None \<Rightarrow>
             if \<not> kzalloc_rmn env then (Inl (- ENOMEM), adev)
             else if mmu_notifier_register env \<noteq> 0
             then (Inl (mmu_notifier_register env), adev)
             else
               let rmn = \<lparr>mm = current_mm env, mn_type = t, objects = [],
                          lock = 0, recursion = 0\<rparr>
               in (Inr (key, rmn), adev\<lparr>mn_hash := (mn_hash adev)(key \<mapsto> rmn)\<rparr>)))"

text \<open>
  The loop of \<^verbatim>\<open>amdgpu_mn_register\<close>: as long as a node overlaps the range, take it
  out of the tree, widen the range to cover it and splice its buffer objects in
  front of the collected ones.  \<open>node\<close> is the node removed last, if any.
\<close>

function amdgpu_mn_register_loop ::
  "amdgpu_mn_node list \<Rightarrow> u64 \<Rightarrow> u64 \<Rightarrow> nat list \<Rightarrow> amdgpu_mn_node option
     \<Rightarrow> amdgpu_mn_node list \<times> u64 \<times> u64 \<times> nat list \<times> amdgpu_mn_node option" where
  "amdgpu_mn_register_loop objs addr end' bos' node =
     (case interval_tree_iter_first objs addr end' of
        None \<Rightarrow> (objs, addr, end', bos', node)
      | Some itn \<Rightarrow>
          amdgpu_mn_register_loop (interval_tree_remove itn objs)
            (min (it_start itn) addr) (max (it_last itn) end') (bos itn @ bos') (Some itn))"
  by pat_completeness auto
termination
proof (relation "measure (\<lambda>(objs, addr, end', bos', node). length objs)")
  show "wf (measure (\<lambda>(objs, addr, end', bos', node). length objs))" by simp
next
  fix objs :: "amdgpu_mn_node list" and addr end' :: u64 and bos' :: "nat list"
    and node :: "amdgpu_mn_node option" and itn :: amdgpu_mn_node
  assume "interval_tree_iter_first objs addr end' = Some itn"
  then have "itn \<in> set objs"
    by (auto simp: interval_tree_iter_first_def find_Some_iff)
  then have "length (remove1 itn objs) < length objs"
    using length_pos_if_in_set [of itn objs] by (simp add: length_remove1)
  then show "((interval_tree_remove itn objs, min (it_start itn) addr,
               max (it_last itn) end', bos itn @ bos', Some itn),
              (objs, addr, end', bos', node))
             \<in> measure (\<lambda>(objs, addr, end', bos', node). length objs)"
    by (simp add: interval_tree_remove_def)
qed

text \<open>
  \<^verbatim>\<open>amdgpu_mn_register(bo, addr)\<close> for the buffer object at address \<open>b\<close>.
  \<^verbatim>\<open>amdgpu_bo_size\<close> (from \<^verbatim>\<open>amdgpu_object.h\<close>) reads the size of the buffer
  object, here its field \<open>bo_size\<close>.
\<close>

definition amdgpu_mn_register ::
  "mn_env \<Rightarrow> amdgpu_device \<Rightarrow> nat \<Rightarrow> u64 \<Rightarrow> int \<times> amdgpu_device" where
  "amdgpu_mn_register env adev b addr =
     (let end' = addr + bo_size (bo adev b) - 1;
          t = (if kfd_bo (bo adev b) \<noteq> 0 then AMDGPU_MN_TYPE_HSA else AMDGPU_MN_TYPE_GFX)
      in
        case amdgpu_mn_get env adev t of
          (Inl err, adev') \<Rightarrow> (err, adev')
        | (Inr (key, rmn), adev') \<Rightarrow>
            (case amdgpu_mn_register_loop (objects rmn) addr end' [] None of
               (objs, addr', end'', bos', node) \<Rightarrow>
                 if node = None \<and> \<not> kmalloc_node env then (- ENOMEM, adev')
                 else
                   let new = \<lparr>it_start = addr', it_last = end'', bos = b # bos'\<rparr>
                   in (0, adev'\<lparr>bo := (bo adev')(b := (bo adev' b)\<lparr>mn := Some key\<rparr>),
                                 mn_hash := (mn_hash adev')
                                   (key \<mapsto> rmn\<lparr>objects := interval_tree_insert new objs\<rparr>)\<rparr>)))"

text \<open>
  \<^verbatim>\<open>amdgpu_mn_unregister(bo)\<close>.  \<^verbatim>\<open>head = bo->mn_list.next\<close> is the list head of
  the node exactly when \<open>b\<close> is the last entry of the node's list, and then
  \<^verbatim>\<open>list_empty(head)\<close> holds after \<open>b\<close> is unlinked exactly when \<open>b\<close> was the only
  entry; otherwise \<open>head\<close> is another entry of a list that is not empty.  So the
  node is taken out of the tree and freed exactly when its list becomes empty.
  The node is the one whose list holds \<open>b\<close>.  A context that \<^verbatim>\<open>bo->mn\<close> names is
  in \<^verbatim>\<open>adev->mn_hash\<close> and has \<open>b\<close> in one of its lists, since
  \<^verbatim>\<open>amdgpu_mn_destroy\<close> clears the field; the two branches for the other cases,
  in which the code would follow a stale pointer, are not reached from the states
  that satisfy \<open>backref_ok\<close> below.  If a second registration has linked \<open>b\<close>
  where it was linked already, \<^verbatim>\<open>bo->mn_list\<close> belongs to the list it was linked
  into last, while the model takes the first node of the tree that holds \<open>b\<close>.
\<close>

definition amdgpu_mn_unregister :: "amdgpu_device \<Rightarrow> nat \<Rightarrow> amdgpu_device" where
  "amdgpu_mn_unregister adev b =
     (case mn (bo adev b) of
        None \<Rightarrow> adev
      | Some key \<Rightarrow>
          (case mn_hash adev key of
             None \<Rightarrow> adev
           | Some rmn \<Rightarrow>
               let objs =
                 (case find (\<lambda>n. b \<in> set (bos n)) (objects rmn) of
                    None \<Rightarrow> objects rmn
                  | Some node \<Rightarrow>
                      if remove1 b (bos node) = []
                      then interval_tree_remove node (objects rmn)
                      else map (\<lambda>n. if n = node then n\<lparr>bos := remove1 b (bos node)\<rparr> else n)
                             (objects rmn))
               in adev\<lparr>bo := (bo adev)(b := (bo adev b)\<lparr>mn := None\<rparr>),
                        mn_hash := (mn_hash adev)(key \<mapsto> rmn\<lparr>objects := objs\<rparr>)\<rparr>))"

text \<open>
  \<^verbatim>\<open>amdgpu_mn_destroy\<close>, the work item that \<^verbatim>\<open>amdgpu_mn_release\<close> schedules for the
  context with the given key: the context leaves the hash table, the back-reference
  of every buffer object of every node is cleared, the nodes and the context are
  freed.
\<close>

definition amdgpu_mn_destroy :: "amdgpu_device \<Rightarrow> u64 \<Rightarrow> amdgpu_device" where
  "amdgpu_mn_destroy adev key =
     (case mn_hash adev key of
        None \<Rightarrow> adev
      | Some rmn \<Rightarrow>
          adev\<lparr>mn_hash := (mn_hash adev)(key := None),
               bo := fold (\<lambda>node h. fold (\<lambda>b h. h(b := (h b)\<lparr>mn := None\<rparr>)) (bos node) h)
                       (objects rmn) (bo adev)\<rparr>)"

subsection \<open>Invalidation callbacks\<close>

text \<open>
  The callbacks call into code outside \<^verbatim>\<open>amdgpu_mn.c\<close>; what they get back is an
  input of the model, what they hand over is recorded:
  \<^item> \<open>affect_userptr b start end\<close> is the result of
    \<^verbatim>\<open>amdgpu_ttm_tt_affect_userptr(bo->tbo.ttm, start, end)\<close>;
  \<^item> \<open>wait_timeout_rcu b\<close> is the result of
    \<^verbatim>\<open>kcl_reservation_object_wait_timeout_rcu(bo->tbo.resv, true, false,
    MAX_SCHEDULE_TIMEOUT)\<close>, which on this kernel is
    \<^verbatim>\<open>reservation_object_wait_timeout_rcu\<close>: wait for all fences, not
    interruptible, without a time limit;
  \<^item> \<open>drm_errors\<close> holds the values reported with \<^verbatim>\<open>DRM_ERROR\<close>,
    \<open>marked_user_pages\<close> the buffer objects passed to
    \<^verbatim>\<open>amdgpu_ttm_tt_mark_user_pages\<close>, \<open>evict_userptr\<close> the arguments of
    \<^verbatim>\<open>amdgpu_amdkfd_evict_userptr\<close>, each in the order of the calls.
\<close>

record ttm_env =
  affect_userptr :: "nat \<Rightarrow> u64 \<Rightarrow> u64 \<Rightarrow> bool"
  wait_timeout_rcu :: "nat \<Rightarrow> int"

record mn_effects =
  drm_errors :: "int list"
  marked_user_pages :: "nat list"
  evict_userptr :: "(nat \<times> u64) list"

definition amdgpu_mn_read_lock :: "amdgpu_mn \<Rightarrow> amdgpu_mn" where
  "amdgpu_mn_read_lock rmn =
     (let rmn1 = rmn\<lparr>recursion := recursion rmn + 1\<rparr>
      in if recursion rmn1 = 1 then rmn1\<lparr>lock := lock rmn1 + 1\<rparr> else rmn1)"

definition amdgpu_mn_read_unlock :: "amdgpu_mn \<Rightarrow> amdgpu_mn" where
  "amdgpu_mn_read_unlock rmn =
     (let rmn1 = rmn\<lparr>recursion := recursion rmn - 1\<rparr>
      in if recursion rmn1 = 0 then rmn1\<lparr>lock := lock rmn1 - 1\<rparr> else rmn1)"

text \<open>The loop of \<^verbatim>\<open>amdgpu_mn_invalidate_node\<close> over the buffer objects of a node.\<close>

fun invalidate_bos :: "ttm_env \<Rightarrow> nat list \<Rightarrow> u64 \<Rightarrow> u64 \<Rightarrow> mn_effects \<Rightarrow> mn_effects" where
  "invalidate_bos env [] start end' fx = fx"
| "invalidate_bos env (b # rest) start end' fx =
     (if \<not> affect_userptr env b start end' then invalidate_bos env rest start end' fx
      else
        let r = wait_timeout_rcu env b;
            fx1 = (if r \<le> 0 then fx\<lparr>drm_errors := drm_errors fx @ [r]\<rparr> else fx);
            fx2 = fx1\<lparr>marked_user_pages := marked_user_pages fx1 @ [b]\<rparr>
        in invalidate_bos env rest start end' fx2)"

definition amdgpu_mn_invalidate_node ::
  "ttm_env \<Rightarrow> amdgpu_mn_node \<Rightarrow> u64 \<Rightarrow> u64 \<Rightarrow> mn_effects \<Rightarrow> mn_effects" where
  "amdgpu_mn_invalidate_node env node start end' fx = invalidate_bos env (bos node) start end' fx"

text \<open>
  The walk of the range callbacks starts with \<^verbatim>\<open>interval_tree_iter_first\<close> and
  fetches the next node with \<^verbatim>\<open>interval_tree_iter_next\<close> before it handles the
  current one: it visits the overlapping nodes of the tree in order.  The graphics
  callback returns with the read lock taken.
\<close>

definition amdgpu_mn_invalidate_range_start_gfx ::
  "ttm_env \<Rightarrow> (nat \<Rightarrow> amdgpu_bo) \<Rightarrow> amdgpu_mn \<Rightarrow> u64 \<Rightarrow> u64 \<Rightarrow> u64 \<Rightarrow> mn_effects
     \<Rightarrow> amdgpu_mn \<times> mn_effects" where
  "amdgpu_mn_invalidate_range_start_gfx env heap rmn mm' start end' fx =
     (let end1 = end' - 1;
          rmn1 = amdgpu_mn_read_lock rmn
      in (rmn1,
          fold (\<lambda>node fx. amdgpu_mn_invalidate_node env node start end1 fx)
            (filter (\<lambda>n. it_overlaps n start end1) (objects rmn1)) fx))"

definition amdgpu_mn_invalidate_range_end :: "amdgpu_mn \<Rightarrow> amdgpu_mn" where
  "amdgpu_mn_invalidate_range_end rmn = amdgpu_mn_read_unlock rmn"

text \<open>
  The compute callback hands every affected buffer object of every overlapping node
  to \<^verbatim>\<open>amdgpu_amdkfd_evict_userptr(bo->kfd_bo, mm)\<close>.  It takes the read lock and,
  like the graphics callback, does not drop it.
\<close>

definition amdgpu_mn_invalidate_range_start_hsa ::
  "ttm_env \<Rightarrow> (nat \<Rightarrow> amdgpu_bo) \<Rightarrow> amdgpu_mn \<Rightarrow> u64 \<Rightarrow> u64 \<Rightarrow> u64 \<Rightarrow> mn_effects
     \<Rightarrow> amdgpu_mn \<times> mn_effects" where
  "amdgpu_mn_invalidate_range_start_hsa env heap rmn mm' start end' fx =
     (let end1 = end' - 1;
          rmn1 = amdgpu_mn_read_lock rmn
      in (rmn1,
          fold (\<lambda>node fx.
                  fold (\<lambda>b fx. if affect_userptr env b start end1
                                then fx\<lparr>evict_userptr := evict_userptr fx @ [(kfd_bo (heap b), mm')]\<rparr>
                                else fx)
                    (bos node) fx)
            (filter (\<lambda>n. it_overlaps n start end1) (objects rmn1)) fx))"

text \<open>
  The callbacks for a single page, compiled for kernels before 4.11 only: they
  handle the first node that holds the address and drop the read lock themselves.
\<close>

definition amdgpu_mn_invalidate_page ::
  "ttm_env \<Rightarrow> (nat \<Rightarrow> amdgpu_bo) \<Rightarrow> amdgpu_mn \<Rightarrow> u64 \<Rightarrow> u64 \<Rightarrow> mn_effects
     \<Rightarrow> amdgpu_mn \<times> mn_effects" where
  "amdgpu_mn_invalidate_page env heap rmn mm' address fx =
     (let rmn1 = amdgpu_mn_read_lock rmn;
          fx1 = (case interval_tree_iter_first (objects rmn1) address address of
                   None \<Rightarrow> fx
                 | Some node \<Rightarrow> amdgpu_mn_invalidate_node env node address address fx)
      in (amdgpu_mn_read_unlock rmn1, fx1))"

definition amdgpu_mn_invalidate_page_hsa ::
  "ttm_env \<Rightarrow> (nat \<Rightarrow> amdgpu_bo) \<Rightarrow> amdgpu_mn \<Rightarrow> u64 \<Rightarrow> u64 \<Rightarrow> mn_effects
     \<Rightarrow> amdgpu_mn \<times> mn_effects" where
  "amdgpu_mn_invalidate_page_hsa env heap rmn mm' address fx =
     (let rmn1 = amdgpu_mn_read_lock rmn;
          fx1 = (case interval_tree_iter_first (objects rmn1) address address of
                   None \<Rightarrow> fx
                 | Some node \<Rightarrow>
                     fold (\<lambda>b fx. if affect_userptr env b address address
                                   then fx\<lparr>evict_userptr := evict_userptr fx @ [(kfd_bo (heap b), mm')]\<rparr>
                                   else fx)
                       (bos node) fx)
      in (amdgpu_mn_read_unlock rmn1, fx1))"

text \<open>
  The table \<^verbatim>\<open>amdgpu_mn_ops\<close>, indexed by the kind of the context, as it is
  compiled for kernel 4.15 (no \<^verbatim>\<open>invalidate_page\<close> entry); \<^verbatim>\<open>release\<close> schedules
  \<^verbatim>\<open>amdgpu_mn_destroy\<close>.
\<close>

record mmu_notifier_ops =
  invalidate_range_start ::
    "ttm_env \<Rightarrow> (nat \<Rightarrow> amdgpu_bo) \<Rightarrow> amdgpu_mn \<Rightarrow> u64 \<Rightarrow> u64 \<Rightarrow> u64 \<Rightarrow> mn_effects
       \<Rightarrow> amdgpu_mn \<times> mn_effects"
  invalidate_range_end :: "amdgpu_mn \<Rightarrow> amdgpu_mn"

definition amdgpu_mn_ops :: "amdgpu_mn_type \<Rightarrow> mmu_notifier_ops" where
  "amdgpu_mn_ops t =
     (case t of
        AMDGPU_MN_TYPE_GFX \<Rightarrow>
          \<lparr>invalidate_range_start = amdgpu_mn_invalidate_range_start_gfx,
           invalidate_range_end = amdgpu_mn_invalidate_range_end\<rparr>
      | AMDGPU_MN_TYPE_HSA \<Rightarrow>
          \<lparr>invalidate_range_start = amdgpu_mn_invalidate_range_start_hsa,
           invalidate_range_end = amdgpu_mn_invalidate_range_end\<rparr>)"

section \<open>Eviction counter\<close>

text \<open>
  Modelled from the spec: the eviction and the restore of a process.  The functions
  that change \<^verbatim>\<open>qpd->evicted\<close> belong to the device queue manager, which is not
  among the sources; the sources declare the counter
  (\<^verbatim>\<open>unsigned int evicted; /* eviction counter, 0=active */\<close>) and set it to 0 in
  \<^verbatim>\<open>kfd_create_process_device_data\<close>.  The spec: the counter is incremented on
  entering eviction and decremented on successful restore; 0 is fully active;
  restore on an already active process is a no-op; eviction and restore act on
  every device of the process.  A restore that fails is scheduled again and leaves
  the counter as it is.
\<close>

definition evict_pdd :: "kfd_process_device \<Rightarrow> kfd_process_device" where
  "evict_pdd pdd = pdd\<lparr>qpd := (qpd pdd)\<lparr>evicted := evicted (qpd pdd) + 1\<rparr>\<rparr>"

definition restore_pdd :: "kfd_process_device \<Rightarrow> kfd_process_device" where
  "restore_pdd pdd =
     (if evicted (qpd pdd) = 0 then pdd
      else pdd\<lparr>qpd := (qpd pdd)\<lparr>evicted := evicted (qpd pdd) - 1\<rparr>\<rparr>)"

definition evict :: "kfd_process \<Rightarrow> kfd_process" where
  "evict p = p\<lparr>per_device_data := map evict_pdd (per_device_data p)\<rparr>"

definition restore :: "bool \<Rightarrow> kfd_process \<Rightarrow> kfd_process" where
  "restore success p =
     (if success then p\<lparr>per_device_data := map restore_pdd (per_device_data p)\<rparr> else p)"

definition active :: "kfd_process \<Rightarrow> bool" where
  "active p \<longleftrightarrow> list_all (\<lambda>pdd. evicted (qpd pdd) = 0) (per_device_data p)"

section \<open>Properties of states and sequences of calls\<close>

text \<open>The nodes of the context with a key; a key without a context has none.\<close>

definition nodes_of :: "amdgpu_device \<Rightarrow> u64 \<Rightarrow> amdgpu_mn_node list" where
  "nodes_of adev key = (case mn_hash adev key of None \<Rightarrow> [] | Some rmn \<Rightarrow> objects rmn)"

text \<open>
  The central invariant of an index: every node covers at least one address, and no
  address is covered by two nodes (nodes at different positions of the tree).
\<close>

definition no_overlap :: "amdgpu_mn_node list \<Rightarrow> bool" where
  "no_overlap objs \<longleftrightarrow>
     (\<forall>n \<in> set objs. it_start n \<le> it_last n) \<and>
     sorted_wrt (\<lambda>n n'. it_range n \<inter> it_range n' = {}) objs"

definition index_ok :: "amdgpu_device \<Rightarrow> bool" where
  "index_ok adev \<longleftrightarrow> (\<forall>key. no_overlap (nodes_of adev key))"

text \<open>A sequence of calls of \<^verbatim>\<open>amdgpu_mn_register\<close>, each with its surroundings.\<close>

fun register_calls :: "amdgpu_device \<Rightarrow> (mn_env \<times> nat \<times> u64) list \<Rightarrow> amdgpu_device" where
  "register_calls adev [] = adev"
| "register_calls adev ((env, b, addr) # calls) =
     register_calls (snd (amdgpu_mn_register env adev b addr)) calls"

text \<open>The last address of the range a call asks for.\<close>

definition req_last :: "amdgpu_device \<Rightarrow> nat \<Rightarrow> u64 \<Rightarrow> u64" where
  "req_last adev b addr = addr + bo_size (bo adev b) - 1"

definition req_key :: "mn_env \<Rightarrow> amdgpu_device \<Rightarrow> nat \<Rightarrow> u64" where
  "req_key env adev b =
     AMDGPU_MN_KEY (current_mm env)
       (if kfd_bo (bo adev b) \<noteq> 0 then AMDGPU_MN_TYPE_HSA else AMDGPU_MN_TYPE_GFX)"

text \<open>
  \<open>registered adev key b\<close>: the buffer object \<open>b\<close> is in the list of a node of the
  context \<open>key\<close>.  \<open>backref_ok\<close>: the back-reference of a buffer object names a
  context exactly when the buffer object is registered there.  \<open>linked_once\<close>: a
  buffer object is linked into the lists of a context at most once.
\<close>

definition registered :: "amdgpu_device \<Rightarrow> u64 \<Rightarrow> nat \<Rightarrow> bool" where
  "registered adev key b \<longleftrightarrow> (\<exists>n \<in> set (nodes_of adev key). b \<in> set (bos n))"

definition backref_ok :: "amdgpu_device \<Rightarrow> bool" where
  "backref_ok adev \<longleftrightarrow> (\<forall>b key. (mn (bo adev b) = Some key) = registered adev key b)"

definition linked_once :: "amdgpu_device \<Rightarrow> bool" where
  "linked_once adev \<longleftrightarrow> (\<forall>key. distinct (concat (map bos (nodes_of adev key))))"

text \<open>
  Calls of the three operations.  A sequence is \<open>well_used\<close> when every
  \<^verbatim>\<open>amdgpu_mn_register\<close> in it is for a buffer object whose back-reference is
  \<^verbatim>\<open>NULL\<close> at that point, that is, one that is not linked into a list.
\<close>

datatype mn_call = Register mn_env nat u64 | Unregister nat | Destroy u64

fun mn_call_step :: "amdgpu_device \<Rightarrow> mn_call \<Rightarrow> amdgpu_device" where
  "mn_call_step adev (Register env b addr) = snd (amdgpu_mn_register env adev b addr)"
| "mn_call_step adev (Unregister b) = amdgpu_mn_unregister adev b"
| "mn_call_step adev (Destroy key) = amdgpu_mn_destroy adev key"

fun mn_calls :: "amdgpu_device \<Rightarrow> mn_call list \<Rightarrow> amdgpu_device" where
  "mn_calls adev [] = adev"
| "mn_calls adev (c # cs) = mn_calls (mn_call_step adev c) cs"

fun well_used :: "amdgpu_device \<Rightarrow> mn_call list \<Rightarrow> bool" where
  "well_used adev [] = True"
| "well_used adev (Register env b addr # cs) =
     (mn (bo adev b) = None \<and> well_used (mn_call_step adev (Register env b addr)) cs)"
| "well_used adev (c # cs) = well_used (mn_call_step adev c) cs"

text \<open>A device without contexts whose buffer objects are not registered.\<close>

definition fresh_device :: "(nat \<Rightarrow> u64) \<Rightarrow> (nat \<Rightarrow> nat) \<Rightarrow> amdgpu_device" where
  "fresh_device size_of kfd_of =
     \<lparr>mn_hash = Map.empty,
      bo = (\<lambda>b. \<lparr>bo_size = size_of b, kfd_bo = kfd_of b, mn = None\<rparr>)\<rparr>"

text \<open>Surroundings in which every allocation of \<^verbatim>\<open>amdgpu_mn_register\<close> succeeds.\<close>

definition env_ok :: "u64 \<Rightarrow> mn_env" where
  "env_ok m = \<lparr>current_mm = m, mmap_sem_killed = False, kzalloc_rmn = True,
               mmu_notifier_register = 0, kmalloc_node = True\<rparr>"

text \<open>
  The buffer objects an invalidation of \<open>[s, l]\<close> handles: those of the overlapping
  nodes, in the order of the walk, for which \<^verbatim>\<open>amdgpu_ttm_tt_affect_userptr\<close>
  holds.
\<close>

definition affected :: "ttm_env \<Rightarrow> amdgpu_mn_node list \<Rightarrow> u64 \<Rightarrow> u64 \<Rightarrow> nat list" where
  "affected env objs s l =
     filter (\<lambda>b. affect_userptr env b s l)
       (concat (map bos (filter (\<lambda>n. it_overlaps n s l) objs)))"

text \<open>
  The buffer objects linked into the lists of a sequence of nodes, with
  multiplicity, and the invariant that combines \<open>backref_ok\<close> and \<open>linked_once\<close>:
  a buffer object occurs once in the lists of the context its back-reference names
  and nowhere else.
\<close>

definition bos_mset :: "amdgpu_mn_node list \<Rightarrow> nat multiset" where
  "bos_mset objs = mset (concat (map bos objs))"

definition backref_count_ok :: "amdgpu_device \<Rightarrow> bool" where
  "backref_count_ok adev \<longleftrightarrow>
     (\<forall>k b. count (bos_mset (nodes_of adev k)) b = (if mn (bo adev b) = Some k then 1 else 0))"

section \<open>The handle table: translating and creating handles\<close>

lemma translate_handle_fault_iff:
  "(kfd_process_device_translate_handle pdd h = Inl NULL_pointer_dereference) =
     (kfd_process_device_find_bo pdd h = None)"
  by (simp add: kfd_process_device_translate_handle_def split: option.split)

text \<open>
  Claim C2 says that translating a handle that is not live returns \<^verbatim>\<open>NULL\<close> and
  never faults.  The code does not do that: on a table without handles,
  \<^verbatim>\<open>kfd_process_device_find_bo\<close> returns \<^verbatim>\<open>NULL\<close> for the handle 5, which was
  never issued, and for the negative handle -1, and
  \<^verbatim>\<open>kfd_process_device_translate_handle\<close> dereferences that result.  The same
  happens for the handle 1 after it has been created and removed again.
\<close>

theorem translate_invalid_handle_faults:
  "kfd_process_device_find_bo (new_pdd 0) 5 = None \<and>
   kfd_process_device_translate_handle (new_pdd 0) 5 = Inl NULL_pointer_dereference \<and>
   kfd_process_device_find_bo (new_pdd 0) (- 1) = None \<and>
   kfd_process_device_translate_handle (new_pdd 0) (- 1) = Inl NULL_pointer_dereference \<and>
   kfd_process_device_create_obj_handle True True
       \<lparr>bo_interval_tree = [], per_device_data = [new_pdd 0]\<rparr> (new_pdd 0) 7 4096 4096 0 =
     (1,
      \<lparr>bo_interval_tree =
         [\<lparr>it_start = 4096, it_last = 8191, mem = 7, dev = 0, kfd_ipc_obj = 0\<rparr>],
       per_device_data = [new_pdd 0]\<rparr>,
      \<lparr>pdd_dev = 0, qpd = \<lparr>evicted = 0\<rparr>,
       alloc_idr = [(1, \<lparr>it_start = 4096, it_last = 8191, mem = 7, dev = 0, kfd_ipc_obj = 0\<rparr>)]\<rparr>) \<and>
   kfd_process_device_translate_handle
       \<lparr>pdd_dev = 0, qpd = \<lparr>evicted = 0\<rparr>,
        alloc_idr = [(1, \<lparr>it_start = 4096, it_last = 8191, mem = 7, dev = 0, kfd_ipc_obj = 0\<rparr>)]\<rparr>
       1 = Inr 7 \<and>
   kfd_process_device_remove_obj_handle
       \<lparr>bo_interval_tree =
          [\<lparr>it_start = 4096, it_last = 8191, mem = 7, dev = 0, kfd_ipc_obj = 0\<rparr>],
        per_device_data = [new_pdd 0]\<rparr>
       \<lparr>pdd_dev = 0, qpd = \<lparr>evicted = 0\<rparr>,
        alloc_idr = [(1, \<lparr>it_start = 4096, it_last = 8191, mem = 7, dev = 0, kfd_ipc_obj = 0\<rparr>)]\<rparr>
       1 =
     Inr (\<lparr>bo_interval_tree = [], per_device_data = [new_pdd 0]\<rparr>, new_pdd 0) \<and>
   kfd_process_device_translate_handle (new_pdd 0) 1 = Inl NULL_pointer_dereference"
  by (simp add: kfd_process_device_translate_handle_def kfd_process_device_find_bo_def
      new_pdd_def idr_find_def kfd_process_device_create_obj_handle_def idr_alloc_def
      interval_tree_insert_def MIN_IDR_ID_def MAX_IDR_ID_def INT_MAX_def
      kfd_process_device_remove_obj_handle_def interval_tree_remove_def idr_remove_def
      Let_def)

lemma create_obj_handle_kzalloc_failure:
  "kfd_process_device_create_obj_handle False idr_ok p pdd m s l i = (- ENOMEM, p, pdd)"
  by (simp add: kfd_process_device_create_obj_handle_def)

lemma create_obj_handle_idr_failure:
  "kfd_process_device_create_obj_handle True False p pdd m s l i =
     (- ENOMEM,
      p\<lparr>bo_interval_tree :=
          interval_tree_insert
            \<lparr>it_start = s, it_last = s + l - 1, mem = m, dev = pdd_dev pdd, kfd_ipc_obj = i\<rparr>
            (bo_interval_tree p)\<rparr>,
      pdd)"
  by (simp add: kfd_process_device_create_obj_handle_def idr_alloc_def)

text \<open>
  Claim C3 says that a failing \<^verbatim>\<open>kfd_process_device_create_obj_handle\<close> leaves the
  handle table and the interval tree of the process as they were.  The code does not
  do that when \<^verbatim>\<open>idr_alloc\<close> fails: for a process without records, the call for
  the range of 4096 bytes at 4096 returns \<^verbatim>\<open>-ENOMEM\<close> (-12) and issues no handle,
  but the freed record stays in the interval tree, where a later
  \<^verbatim>\<open>kfd_process_find_bo_from_interval\<close> finds it.
\<close>

theorem create_obj_handle_failure_keeps_record:
  "kfd_process_device_create_obj_handle True False
       \<lparr>bo_interval_tree = [], per_device_data = [new_pdd 0]\<rparr> (new_pdd 0) 7 4096 4096 0 =
     (- 12,
      \<lparr>bo_interval_tree =
         [\<lparr>it_start = 4096, it_last = 8191, mem = 7, dev = 0, kfd_ipc_obj = 0\<rparr>],
       per_device_data = [new_pdd 0]\<rparr>,
      new_pdd 0) \<and>
   alloc_idr (new_pdd 0) = [] \<and>
   fst (kfd_process_find_bo_from_interval
          \<lparr>bo_interval_tree =
             [\<lparr>it_start = 4096, it_last = 8191, mem = 7, dev = 0, kfd_ipc_obj = 0\<rparr>],
           per_device_data = [new_pdd 0]\<rparr> 4096 4097) =
     Some \<lparr>it_start = 4096, it_last = 8191, mem = 7, dev = 0, kfd_ipc_obj = 0\<rparr>"
  by (simp add: kfd_process_device_create_obj_handle_def idr_alloc_def new_pdd_def
      interval_tree_insert_def ENOMEM_def kfd_process_find_bo_from_interval_def
      interval_tree_iter_first_def interval_tree_iter_next_def it_overlaps_def)

section \<open>The handle table: lookup by range\<close>

lemma find_as_filter: "find P xs = (case filter P xs of [] \<Rightarrow> None | x # ys \<Rightarrow> Some x)"
  by (induction xs) simp_all

lemma find_next_as_filter:
  "find P xs = Some x \<Longrightarrow>
   find P (tl (dropWhile (\<lambda>y. y \<noteq> x) xs)) =
     (case tl (filter P xs) of [] \<Rightarrow> None | y # ys \<Rightarrow> Some y)"
proof (induction xs)
  case Nil
  then show ?case by simp
next
  case (Cons a xs)
  show ?case
  proof (cases "P a")
    case True
    with Cons.prems have "x = a" by simp
    with True show ?thesis by (simp add: find_as_filter)
  next
    case False
    with Cons.prems have f: "find P xs = Some x" by simp
    then have "P x" by (auto simp: find_Some_iff)
    with False have "a \<noteq> x" by auto
    with False Cons.IH [OF f] show ?thesis by simp
  qed
qed

text \<open>
  On ranges that are not empty the test of the interval tree is the overlap of the
  sets of addresses.
\<close>

lemma it_overlaps_iff_range:
  assumes "it_start n \<le> it_last n" and "s \<le> l"
  shows "it_overlaps n s l \<longleftrightarrow> it_range n \<inter> {s..l} \<noteq> {}"
  using assms by (auto simp: it_overlaps_def it_range_def)

lemma find_bo_from_interval_overlaps:
  "kfd_process_find_bo_from_interval p s l =
     (case filter (\<lambda>b. it_overlaps b s l) (bo_interval_tree p) of
        [] \<Rightarrow> (None, [''does not relate to an existing buffer''])
      | [b] \<Rightarrow> (Some b, [])
      | b # c # cs \<Rightarrow> (None, [''spans more than a single BO'']))"
proof (cases "find (\<lambda>b. it_overlaps b s l) (bo_interval_tree p)")
  case None
  then show ?thesis
    by (simp add: kfd_process_find_bo_from_interval_def interval_tree_iter_first_def
        find_as_filter split: list.splits)
next
  case (Some x)
  from find_next_as_filter [OF Some] Some show ?thesis
    by (auto simp add: kfd_process_find_bo_from_interval_def interval_tree_iter_first_def
        interval_tree_iter_next_def find_as_filter split: list.splits)
qed

text \<open>
  For ranges that are not empty, the result is decided by the records linked in the
  interval tree that share an address with the queried range.
\<close>

lemma find_bo_from_interval_in_index:
  assumes "s \<le> l" and "\<forall>b \<in> set (bo_interval_tree p). it_start b \<le> it_last b"
  shows "kfd_process_find_bo_from_interval p s l =
     (case filter (\<lambda>b. it_range b \<inter> {s..l} \<noteq> {}) (bo_interval_tree p) of
        [] \<Rightarrow> (None, [''does not relate to an existing buffer''])
      | [b] \<Rightarrow> (Some b, [])
      | b # c # cs \<Rightarrow> (None, [''spans more than a single BO'']))"
proof -
  have "filter (\<lambda>b. it_range b \<inter> {s..l} \<noteq> {}) (bo_interval_tree p) =
        filter (\<lambda>b. it_overlaps b s l) (bo_interval_tree p)"
    using assms by (intro filter_cong refl) (simp add: it_overlaps_iff_range)
  then show ?thesis by (simp add: find_bo_from_interval_overlaps)
qed

lemma range_inter_iff:
  "{a..b} \<inter> {c..d} \<noteq> {} \<longleftrightarrow> a \<le> b \<and> c \<le> d \<and> a \<le> d \<and> c \<le> (b::u64)"
  by (auto simp: Int_atLeastAtMost)

text \<open>
  Claim C6 says, for every process and every \<open>start\<close> and \<open>end\<close>, that the lookup
  returns \<^verbatim>\<open>NULL\<close> with one error when no live record overlaps \<open>[start, end]\<close>.
  It does not hold for the inverted query \<open>start = 500\<close>, \<open>end = 100\<close> on a process
  whose one live record is \<open>[0, 999]\<close>: the range holds no address, so no record
  shares one with it, but the test of the interval tree
  (\<^verbatim>\<open>node->start <= last && start <= node->last\<close>) succeeds and the record is returned
  without an error.  It also does not hold in the state that the failing
  \<^verbatim>\<open>kfd_process_device_create_obj_handle\<close> of claim C3 leaves behind: no handle is
  live, and the lookup returns the freed record.
\<close>

theorem find_bo_from_interval_not_by_live_overlap:
  "live_records
      \<lparr>bo_interval_tree = [\<lparr>it_start = 0, it_last = 999, mem = 1, dev = 0, kfd_ipc_obj = 0\<rparr>],
       per_device_data =
         [\<lparr>pdd_dev = 0, qpd = \<lparr>evicted = 0\<rparr>,
           alloc_idr = [(1, \<lparr>it_start = 0, it_last = 999, mem = 1, dev = 0, kfd_ipc_obj = 0\<rparr>)]\<rparr>]\<rparr> =
     [\<lparr>it_start = 0, it_last = 999, mem = 1, dev = 0, kfd_ipc_obj = 0\<rparr>] \<and>
   it_range \<lparr>it_start = 0, it_last = 999, mem = 1, dev = 0, kfd_ipc_obj = 0\<rparr> \<inter> {500 .. 100} = {} \<and>
   kfd_process_find_bo_from_interval
      \<lparr>bo_interval_tree = [\<lparr>it_start = 0, it_last = 999, mem = 1, dev = 0, kfd_ipc_obj = 0\<rparr>],
       per_device_data =
         [\<lparr>pdd_dev = 0, qpd = \<lparr>evicted = 0\<rparr>,
           alloc_idr = [(1, \<lparr>it_start = 0, it_last = 999, mem = 1, dev = 0, kfd_ipc_obj = 0\<rparr>)]\<rparr>]\<rparr>
      500 100 =
     (Some \<lparr>it_start = 0, it_last = 999, mem = 1, dev = 0, kfd_ipc_obj = 0\<rparr>, []) \<and>
   live_records
      \<lparr>bo_interval_tree =
         [\<lparr>it_start = 4096, it_last = 8191, mem = 7, dev = 0, kfd_ipc_obj = 0\<rparr>],
       per_device_data = [new_pdd 0]\<rparr> = [] \<and>
   kfd_process_find_bo_from_interval
      \<lparr>bo_interval_tree =
         [\<lparr>it_start = 4096, it_last = 8191, mem = 7, dev = 0, kfd_ipc_obj = 0\<rparr>],
       per_device_data = [new_pdd 0]\<rparr> 4096 4097 =
     (Some \<lparr>it_start = 4096, it_last = 8191, mem = 7, dev = 0, kfd_ipc_obj = 0\<rparr>, [])"
  by (simp add: live_records_def new_pdd_def it_range_def kfd_process_find_bo_from_interval_def
      interval_tree_iter_first_def interval_tree_iter_next_def it_overlaps_def)

lemma mset_single_list: "mset zs = {#b#} \<Longrightarrow> zs = [b]"
  by (cases zs) auto

lemma mset_filter_eq_cases:
  assumes "mset xs = mset ys"
  shows "(case filter P xs of [] \<Rightarrow> a | [b] \<Rightarrow> f b | b # c # cs \<Rightarrow> g) =
         (case filter P ys of [] \<Rightarrow> a | [b] \<Rightarrow> f b | b # c # cs \<Rightarrow> g)"
proof -
  from assms have m: "mset (filter P xs) = mset (filter P ys)" by simp
  then have len: "length (filter P xs) = length (filter P ys)" by (rule mset_eq_length)
  show ?thesis
  proof (cases "filter P ys")
    case Nil
    with m show ?thesis by simp
  next
    case (Cons b bs)
    show ?thesis
    proof (cases bs)
      case Nil
      with Cons m have "mset (filter P xs) = {#b#}" by simp
      then have "filter P xs = [b]" by (rule mset_single_list)
      with Cons Nil show ?thesis by simp
    next
      case (Cons c cs)
      with \<open>filter P ys = b # bs\<close> len obtain b' c' cs' where "filter P xs = b' # c' # cs'"
        by (cases "filter P xs"; cases "tl (filter P xs)") auto
      with Cons \<open>filter P ys = b # bs\<close> show ?thesis by simp
    qed
  qed
qed

text \<open>
  Claim C6 as amended: let the interval tree of the process hold exactly the records
  of its live handles, each with a range that is not empty, and let \<open>s \<le> l\<close>.  If
  exactly one live record shares an address with \<open>[s, l]\<close>, it is returned and
  nothing is logged; if none does, or if two or more do, the result is \<^verbatim>\<open>NULL\<close> and
  exactly one error is logged.
\<close>

theorem find_bo_from_interval_live:
  assumes "s \<le> l"
    and "mset (bo_interval_tree p) = mset (live_records p)"
    and "\<forall>b \<in> set (live_records p). it_start b \<le> it_last b"
  shows "kfd_process_find_bo_from_interval p s l =
     (case filter (\<lambda>b. it_range b \<inter> {s..l} \<noteq> {}) (live_records p) of
        [] \<Rightarrow> (None, [''does not relate to an existing buffer''])
      | [b] \<Rightarrow> (Some b, [])
      | b # c # cs \<Rightarrow> (None, [''spans more than a single BO'']))"
proof -
  from assms(2) have "set (bo_interval_tree p) = set (live_records p)" by (rule mset_eq_setD)
  with assms(3) have "\<forall>b \<in> set (bo_interval_tree p). it_start b \<le> it_last b" by simp
  from find_bo_from_interval_in_index [OF assms(1) this]
    mset_filter_eq_cases [OF assms(2)]
  show ?thesis by simp
qed

text \<open>
  A process with two devices and the live records \<open>[0, 999]\<close> and \<open>[1000, 1999]\<close>:
  the range \<open>[100, 200]\<close> lies inside the first record, which is returned; the range
  \<open>[500, 1499]\<close> spans both, the result is \<^verbatim>\<open>NULL\<close> with one error; nothing
  overlaps \<open>[5000, 5999]\<close>, the result is \<^verbatim>\<open>NULL\<close> with one error.
\<close>

theorem find_bo_from_interval_live_witness:
  "kfd_process_find_bo_from_interval
      \<lparr>bo_interval_tree =
         [\<lparr>it_start = 0, it_last = 999, mem = 1, dev = 0, kfd_ipc_obj = 0\<rparr>,
          \<lparr>it_start = 1000, it_last = 1999, mem = 2, dev = 1, kfd_ipc_obj = 0\<rparr>],
       per_device_data =
         [\<lparr>pdd_dev = 1, qpd = \<lparr>evicted = 0\<rparr>,
           alloc_idr = [(1, \<lparr>it_start = 1000, it_last = 1999, mem = 2, dev = 1, kfd_ipc_obj = 0\<rparr>)]\<rparr>,
          \<lparr>pdd_dev = 0, qpd = \<lparr>evicted = 0\<rparr>,
           alloc_idr = [(1, \<lparr>it_start = 0, it_last = 999, mem = 1, dev = 0, kfd_ipc_obj = 0\<rparr>)]\<rparr>]\<rparr>
      100 200 =
     (Some \<lparr>it_start = 0, it_last = 999, mem = 1, dev = 0, kfd_ipc_obj = 0\<rparr>, []) \<and>
   kfd_process_find_bo_from_interval
      \<lparr>bo_interval_tree =
         [\<lparr>it_start = 0, it_last = 999, mem = 1, dev = 0, kfd_ipc_obj = 0\<rparr>,
          \<lparr>it_start = 1000, it_last = 1999, mem = 2, dev = 1, kfd_ipc_obj = 0\<rparr>],
       per_device_data =
         [\<lparr>pdd_dev = 1, qpd = \<lparr>evicted = 0\<rparr>,
           alloc_idr = [(1, \<lparr>it_start = 1000, it_last = 1999, mem = 2, dev = 1, kfd_ipc_obj = 0\<rparr>)]\<rparr>,
          \<lparr>pdd_dev = 0, qpd = \<lparr>evicted = 0\<rparr>,
           alloc_idr = [(1, \<lparr>it_start = 0, it_last = 999, mem = 1, dev = 0, kfd_ipc_obj = 0\<rparr>)]\<rparr>]\<rparr>
      500 1499 =
     (None, [''spans more than a single BO'']) \<and>
   kfd_process_find_bo_from_interval
      \<lparr>bo_interval_tree =
         [\<lparr>it_start = 0, it_last = 999, mem = 1, dev = 0, kfd_ipc_obj = 0\<rparr>,
          \<lparr>it_start = 1000, it_last = 1999, mem = 2, dev = 1, kfd_ipc_obj = 0\<rparr>],
       per_device_data =
         [\<lparr>pdd_dev = 1, qpd = \<lparr>evicted = 0\<rparr>,
           alloc_idr = [(1, \<lparr>it_start = 1000, it_last = 1999, mem = 2, dev = 1, kfd_ipc_obj = 0\<rparr>)]\<rparr>,
          \<lparr>pdd_dev = 0, qpd = \<lparr>evicted = 0\<rparr>,
           alloc_idr = [(1, \<lparr>it_start = 0, it_last = 999, mem = 1, dev = 0, kfd_ipc_obj = 0\<rparr>)]\<rparr>]\<rparr>
      5000 5999 =
     (None, [''does not relate to an existing buffer''])"
proof -
  let ?r1 = "\<lparr>it_start = 0, it_last = 999, mem = 1, dev = 0, kfd_ipc_obj = 0\<rparr>"
  let ?r2 = "\<lparr>it_start = 1000, it_last = 1999, mem = 2, dev = 1, kfd_ipc_obj = 0\<rparr>"
  let ?p = "\<lparr>bo_interval_tree = [?r1, ?r2],
       per_device_data =
         [\<lparr>pdd_dev = 1, qpd = \<lparr>evicted = 0\<rparr>, alloc_idr = [(1, ?r2)]\<rparr>,
          \<lparr>pdd_dev = 0, qpd = \<lparr>evicted = 0\<rparr>, alloc_idr = [(1, ?r1)]\<rparr>]\<rparr>"
  have l: "live_records ?p = [?r2, ?r1]" by (simp add: live_records_def)
  have h2: "mset (bo_interval_tree ?p) = mset (live_records ?p)" unfolding l by simp
  have h3: "\<forall>b \<in> set (live_records ?p). it_start b \<le> it_last b" unfolding l by simp
  have q: "(100::u64) \<le> 200" "(500::u64) \<le> 1499" "(5000::u64) \<le> 5999" by simp_all
  from find_bo_from_interval_live [OF q(1) h2 h3] find_bo_from_interval_live [OF q(2) h2 h3]
    find_bo_from_interval_live [OF q(3) h2 h3]
  show ?thesis unfolding l by (simp add: it_range_def range_inter_iff)
qed

section \<open>The eviction counter\<close>

lemma create_pdd_success:
  assumes "kfd_create_process_device_data env d q = (Some pdd, q', msgs)"
  shows "pdd = new_pdd d" and "evicted (qpd pdd) = 0" and "alloc_idr pdd = []"
    and "per_device_data q' = pdd # per_device_data q" and "active q' = active q"
  using assms
  by (auto simp: kfd_create_process_device_data_def Let_def new_pdd_def active_def
      split: if_splits)

lemma create_pdd_failure:
  assumes "kfd_create_process_device_data env d q = (None, q', msgs)"
  shows "q' = q"
  using assms
  by (auto simp: kfd_create_process_device_data_def Let_def split: if_splits)

lemma restore_active: "active p \<Longrightarrow> restore ok p = p"
  by (cases p) (simp add: active_def restore_def restore_pdd_def list_all_iff map_idI)

lemma restore_funpow_active: "active p \<Longrightarrow> (restore ok ^^ n) p = p"
  by (induction n) (simp_all add: restore_active)

lemma evicted_twice:
  assumes "active p" and "per_device_data p \<noteq> []"
  shows "map (\<lambda>x. evicted (qpd x)) (per_device_data (evict (evict p))) =
           map (\<lambda>x. 2) (per_device_data p)"
    and "\<not> active (evict (evict p))"
    and "\<not> active (restore True (evict (evict p)))"
    and "active (restore True (restore True (evict (evict p))))"
proof -
  from assms(1) have z: "\<forall>x \<in> set (per_device_data p). evicted (qpd x) = 0"
    by (simp add: active_def list_all_iff)
  from assms(2) obtain x where x: "x \<in> set (per_device_data p)"
    by (cases "per_device_data p") auto
  show "map (\<lambda>x. evicted (qpd x)) (per_device_data (evict (evict p))) =
           map (\<lambda>x. 2) (per_device_data p)"
    using z by (simp add: evict_def evict_pdd_def)
  show "\<not> active (evict (evict p))"
    using z x by (auto simp: active_def list_all_iff evict_def evict_pdd_def)
  show "\<not> active (restore True (evict (evict p)))"
    using z x by (auto simp: active_def list_all_iff evict_def evict_pdd_def restore_def restore_pdd_def)
  show "active (restore True (restore True (evict (evict p))))"
    using z by (auto simp: active_def list_all_iff evict_def evict_pdd_def restore_def restore_pdd_def)
qed

text \<open>
  Claim C9, on the eviction and restore modelled from the spec and the creation of
  the per-device data of the sources.  A successful
  \<^verbatim>\<open>kfd_create_process_device_data\<close> adds an entry whose counter is 0 and keeps an
  active process active; a failing one leaves the process as it was.  An eviction
  adds one to the counter, a successful restore takes one off unless the counter is
  0.  For every active process with at least one device: after two evictions the
  counter of every device is 2, and the process is active again after \<open>n\<close>
  successful restores exactly when \<open>n\<close> is at least two.  A restore that fails and
  a restore of an active process change nothing.
\<close>

theorem eviction_counter:
  assumes "active p" and "per_device_data p \<noteq> []"
  shows
   "(kfd_create_process_device_data env d q = (Some pdd', q', msgs) \<longrightarrow>
       evicted (qpd pdd') = 0 \<and> per_device_data q' = pdd' # per_device_data q \<and>
       active q' = active q) \<and>
    (kfd_create_process_device_data env d q = (None, q', msgs) \<longrightarrow> q' = q) \<and>
    evicted (qpd (evict_pdd pdd)) = evicted (qpd pdd) + 1 \<and>
    evicted (qpd (restore_pdd pdd)) =
      (if evicted (qpd pdd) = 0 then 0 else evicted (qpd pdd) - 1) \<and>
    map (\<lambda>x. evicted (qpd x)) (per_device_data (evict (evict p))) =
      map (\<lambda>x. 2) (per_device_data p) \<and>
    active ((restore True ^^ n) (evict (evict p))) = (2 \<le> n) \<and>
    restore False r = r \<and>
    (active r \<longrightarrow> restore ok r = r)"
proof -
  define p2 where "p2 = evict (evict p)"
  have a: "\<not> active p2" "\<not> active (restore True p2)" "active (restore True (restore True p2))"
    using evicted_twice(2-4) [OF assms] by (simp_all add: p2_def)
  have "active ((restore True ^^ n) p2) = (2 \<le> n)"
  proof (cases "2 \<le> n")
    case True
    then obtain m where n: "n = m + 2" by (metis le_add_diff_inverse2)
    have "(restore True ^^ n) p2 = (restore True ^^ m) (restore True (restore True p2))"
      unfolding n funpow_add by (simp add: numeral_2_eq_2)
    then show ?thesis using True a(3) by (simp add: restore_funpow_active)
  next
    case False
    then have "n = 0 \<or> n = 1" by auto
    then show ?thesis using a by auto
  qed
  then have c6: "active ((restore True ^^ n) (evict (evict p))) = (2 \<le> n)"
    by (simp add: p2_def)
  have c1: "kfd_create_process_device_data env d q = (Some pdd', q', msgs) \<longrightarrow>
       evicted (qpd pdd') = 0 \<and> per_device_data q' = pdd' # per_device_data q \<and>
       active q' = active q"
    using create_pdd_success(2,4,5) by blast
  have c2: "kfd_create_process_device_data env d q = (None, q', msgs) \<longrightarrow> q' = q"
    using create_pdd_failure by blast
  have c3: "evicted (qpd (evict_pdd pdd)) = evicted (qpd pdd) + 1"
    by (simp add: evict_pdd_def)
  have c4: "evicted (qpd (restore_pdd pdd)) =
      (if evicted (qpd pdd) = 0 then 0 else evicted (qpd pdd) - 1)"
    by (simp add: restore_pdd_def)
  have c5: "map (\<lambda>x. evicted (qpd x)) (per_device_data (evict (evict p))) =
      map (\<lambda>x. 2) (per_device_data p)"
    by (rule evicted_twice(1) [OF assms])
  have c7: "restore False r = r" by (simp add: restore_def)
  have c8: "active r \<longrightarrow> restore ok r = r" by (simp add: restore_active)
  from c1 c2 c3 c4 c5 c6 c7 c8 show ?thesis by (intro conjI)
qed

text \<open>
  A process with two devices, the second created by a successful call (a call whose
  doorbell bitmap cannot be allocated leaves the process with one device): after
  two evictions both counters are 2, one successful restore leaves the process
  evicted, two make it active.
\<close>

theorem eviction_counter_witness:
  "kfd_create_process_device_data
      \<lparr>kzalloc_pdd = True, is_soc15 = True, kzalloc_doorbell_bitmap = True, create_process_vm = 0\<rparr>
      1 \<lparr>bo_interval_tree = [], per_device_data = [new_pdd 0]\<rparr> =
     (Some (new_pdd 1), \<lparr>bo_interval_tree = [], per_device_data = [new_pdd 1, new_pdd 0]\<rparr>, []) \<and>
   kfd_create_process_device_data
      \<lparr>kzalloc_pdd = True, is_soc15 = True, kzalloc_doorbell_bitmap = False, create_process_vm = 0\<rparr>
      1 \<lparr>bo_interval_tree = [], per_device_data = [new_pdd 0]\<rparr> =
     (None, \<lparr>bo_interval_tree = [], per_device_data = [new_pdd 0]\<rparr>,
      [''Failed to init doorbell for process'']) \<and>
   active \<lparr>bo_interval_tree = [], per_device_data = [new_pdd 1, new_pdd 0]\<rparr> \<and>
   per_device_data \<lparr>bo_interval_tree = [], per_device_data = [new_pdd 1, new_pdd 0]\<rparr> \<noteq> [] \<and>
   map (\<lambda>x. evicted (qpd x)) (per_device_data (evict (evict
       \<lparr>bo_interval_tree = [], per_device_data = [new_pdd 1, new_pdd 0]\<rparr>))) = [2, 2] \<and>
   \<not> active ((restore True ^^ 1) (evict (evict
       \<lparr>bo_interval_tree = [], per_device_data = [new_pdd 1, new_pdd 0]\<rparr>))) \<and>
   active ((restore True ^^ 2) (evict (evict
       \<lparr>bo_interval_tree = [], per_device_data = [new_pdd 1, new_pdd 0]\<rparr>)))"
proof -
  let ?p = "\<lparr>bo_interval_tree = [], per_device_data = [new_pdd 1, new_pdd 0]\<rparr>"
  have h1: "active ?p" by (simp add: active_def new_pdd_def)
  have h2: "per_device_data ?p \<noteq> []" by simp
  have k1: "kfd_create_process_device_data
      \<lparr>kzalloc_pdd = True, is_soc15 = True, kzalloc_doorbell_bitmap = True, create_process_vm = 0\<rparr>
      1 \<lparr>bo_interval_tree = [], per_device_data = [new_pdd 0]\<rparr> =
     (Some (new_pdd 1), ?p, [])"
    by (simp add: kfd_create_process_device_data_def init_doorbell_bitmap_def Let_def)
  have k2: "kfd_create_process_device_data
      \<lparr>kzalloc_pdd = True, is_soc15 = True, kzalloc_doorbell_bitmap = False, create_process_vm = 0\<rparr>
      1 \<lparr>bo_interval_tree = [], per_device_data = [new_pdd 0]\<rparr> =
     (None, \<lparr>bo_interval_tree = [], per_device_data = [new_pdd 0]\<rparr>,
      [''Failed to init doorbell for process''])"
    by (simp add: kfd_create_process_device_data_def init_doorbell_bitmap_def Let_def ENOMEM_def)
  note t1 = eviction_counter [OF h1 h2, where n = 1]
  note t2 = eviction_counter [OF h1 h2, where n = 2]
  note a = t1 [THEN conjunct2, THEN conjunct2, THEN conjunct2, THEN conjunct2, THEN conjunct1]
  note b1 = t1 [THEN conjunct2, THEN conjunct2, THEN conjunct2, THEN conjunct2, THEN conjunct2,
      THEN conjunct1]
  note c1 = t2 [THEN conjunct2, THEN conjunct2, THEN conjunct2, THEN conjunct2, THEN conjunct2,
      THEN conjunct1]
  from a have a': "map (\<lambda>x. evicted (qpd x)) (per_device_data (evict (evict ?p))) = [2, 2]"
    by simp
  from b1 have b: "\<not> active ((restore True ^^ 1) (evict (evict ?p)))" by simp
  from c1 have c: "active ((restore True ^^ 2) (evict (evict ?p)))" by simp
  from k1 k2 h1 h2 a' b c show ?thesis by (intro conjI)
qed

section \<open>The read lock of the invalidation callbacks\<close>

lemma read_unlock_read_lock: "amdgpu_mn_read_unlock (amdgpu_mn_read_lock rmn) = rmn"
  by (cases rmn) (simp add: amdgpu_mn_read_unlock_def amdgpu_mn_read_lock_def Let_def)

lemma read_lock_fields:
  "objects (amdgpu_mn_read_lock rmn) = objects rmn"
  "recursion (amdgpu_mn_read_lock rmn) = recursion rmn + 1"
  "lock (amdgpu_mn_read_lock rmn) = (if recursion rmn = 0 then lock rmn + 1 else lock rmn)"
  by (simp_all add: amdgpu_mn_read_lock_def Let_def)

text \<open>
  Claim C4 says that a compute (HSA) context drops the read lock before its start
  callback returns.  It does not: for a compute context whose lock is free, the
  start callback of the table returns with one read hold and recursion count 1.
\<close>

theorem hsa_start_keeps_read_lock:
  "lock \<lparr>mm = 4096, mn_type = AMDGPU_MN_TYPE_HSA, objects = [], lock = 0, recursion = 0\<rparr> = 0 \<and>
   lock (fst (invalidate_range_start (amdgpu_mn_ops AMDGPU_MN_TYPE_HSA)
        \<lparr>affect_userptr = (\<lambda>b s e. True), wait_timeout_rcu = (\<lambda>b. 1)\<rparr>
        (\<lambda>b. \<lparr>bo_size = 4096, kfd_bo = 1, mn = None\<rparr>)
        \<lparr>mm = 4096, mn_type = AMDGPU_MN_TYPE_HSA, objects = [], lock = 0, recursion = 0\<rparr>
        4096 0 4096
        \<lparr>drm_errors = [], marked_user_pages = [], evict_userptr = []\<rparr>)) = 1 \<and>
   recursion (fst (invalidate_range_start (amdgpu_mn_ops AMDGPU_MN_TYPE_HSA)
        \<lparr>affect_userptr = (\<lambda>b s e. True), wait_timeout_rcu = (\<lambda>b. 1)\<rparr>
        (\<lambda>b. \<lparr>bo_size = 4096, kfd_bo = 1, mn = None\<rparr>)
        \<lparr>mm = 4096, mn_type = AMDGPU_MN_TYPE_HSA, objects = [], lock = 0, recursion = 0\<rparr>
        4096 0 4096
        \<lparr>drm_errors = [], marked_user_pages = [], evict_userptr = []\<rparr>)) = 1"
  by (simp add: amdgpu_mn_ops_def amdgpu_mn_invalidate_range_start_hsa_def
      amdgpu_mn_read_lock_def)

text \<open>
  Claim C4 as amended: for both kinds of context the start callback of the table
  returns with the read lock taken (the recursion count is one higher, and a read
  hold is added when the count was 0) and leaves the index as it is; the end
  callback of the table, the same function for both kinds, gives the lock back, so
  that the context is as before the start.  Only the callbacks for a single page,
  which exist for kernels before 4.11, take and drop the lock around their walk.
\<close>

theorem range_start_holds_lock_until_end:
  "recursion (fst (invalidate_range_start (amdgpu_mn_ops t) env heap rmn m s e fx)) =
     recursion rmn + 1 \<and>
   lock (fst (invalidate_range_start (amdgpu_mn_ops t) env heap rmn m s e fx)) =
     (if recursion rmn = 0 then lock rmn + 1 else lock rmn) \<and>
   objects (fst (invalidate_range_start (amdgpu_mn_ops t) env heap rmn m s e fx)) =
     objects rmn \<and>
   invalidate_range_end (amdgpu_mn_ops t)
     (fst (invalidate_range_start (amdgpu_mn_ops t) env heap rmn m s e fx)) = rmn \<and>
   fst (amdgpu_mn_invalidate_page env heap rmn m a fx) = rmn \<and>
   fst (amdgpu_mn_invalidate_page_hsa env heap rmn m a fx) = rmn"
  by (cases t)
    (simp_all add: amdgpu_mn_ops_def amdgpu_mn_invalidate_range_start_gfx_def
      amdgpu_mn_invalidate_range_start_hsa_def amdgpu_mn_invalidate_range_end_def
      amdgpu_mn_invalidate_page_def amdgpu_mn_invalidate_page_hsa_def
      read_unlock_read_lock read_lock_fields Let_def)

section \<open>The invalidation walk\<close>

lemma invalidate_bos_effects:
  "invalidate_bos env bs s l fx =
     fx\<lparr>drm_errors := drm_errors fx @
           filter (\<lambda>r. r \<le> 0)
             (map (wait_timeout_rcu env) (filter (\<lambda>b. affect_userptr env b s l) bs)),
        marked_user_pages := marked_user_pages fx @ filter (\<lambda>b. affect_userptr env b s l) bs\<rparr>"
  by (induction bs arbitrary: fx) (simp_all add: Let_def)

lemma invalidate_nodes_effects:
  "fold (\<lambda>node fx. amdgpu_mn_invalidate_node env node s l fx) ns fx =
     fx\<lparr>drm_errors := drm_errors fx @
           filter (\<lambda>r. r \<le> 0)
             (map (wait_timeout_rcu env)
               (filter (\<lambda>b. affect_userptr env b s l) (concat (map bos ns)))),
        marked_user_pages := marked_user_pages fx @
           filter (\<lambda>b. affect_userptr env b s l) (concat (map bos ns))\<rparr>"
  by (induction ns arbitrary: fx)
    (simp_all add: amdgpu_mn_invalidate_node_def invalidate_bos_effects)

text \<open>
  Claim C8: the walk of the graphics start callback over the range \<open>[s, e - 1]\<close>
  passes every affected buffer object of every overlapping node to
  \<^verbatim>\<open>amdgpu_ttm_tt_mark_user_pages\<close>, whatever its fence wait returned, and reports
  exactly the results of the waits that are 0 or negative; it has no error result.
  It leaves the index as it is and returns with the read lock taken, which the end
  callback gives back.  With the buffer objects 1 (wait timed out, result 0) and 2
  (wait succeeded) in one node, both are marked and one error is reported.
\<close>

theorem invalidation_walk_tolerates_wait_failure:
  "amdgpu_mn_invalidate_range_start_gfx env heap rmn m s e fx =
     (amdgpu_mn_read_lock rmn,
      fx\<lparr>drm_errors := drm_errors fx @
             filter (\<lambda>r. r \<le> 0)
               (map (wait_timeout_rcu env) (affected env (objects rmn) s (e - 1))),
          marked_user_pages := marked_user_pages fx @ affected env (objects rmn) s (e - 1)\<rparr>) \<and>
   objects (amdgpu_mn_read_lock rmn) = objects rmn \<and>
   amdgpu_mn_invalidate_range_end (amdgpu_mn_read_lock rmn) = rmn \<and>
   snd (amdgpu_mn_invalidate_range_start_gfx
          \<lparr>affect_userptr = (\<lambda>b s e. True), wait_timeout_rcu = (\<lambda>b. if b = 1 then 0 else 1)\<rparr>
          heap
          \<lparr>mm = 4096, mn_type = AMDGPU_MN_TYPE_GFX,
           objects = [\<lparr>it_start = 0, it_last = 4095, bos = [1, 2]\<rparr>], lock = 0, recursion = 0\<rparr>
          4096 0 4096
          \<lparr>drm_errors = [], marked_user_pages = [], evict_userptr = []\<rparr>) =
     \<lparr>drm_errors = [0], marked_user_pages = [1, 2], evict_userptr = []\<rparr>"
  by (simp add: amdgpu_mn_invalidate_range_start_gfx_def Let_def invalidate_nodes_effects
      affected_def read_lock_fields amdgpu_mn_invalidate_range_end_def read_unlock_read_lock
      it_overlaps_def)

section \<open>Registration keeps the nodes of an index disjoint\<close>

lemma it_range_disjoint_iff:
  assumes "it_start a \<le> it_last a" and "it_start c \<le> it_last c"
  shows "it_range a \<inter> it_range c = {} \<longleftrightarrow> \<not> it_overlaps a (it_start c) (it_last c)"
  using assms by (auto simp: it_overlaps_def it_range_def)

lemma no_overlap_iff:
  "no_overlap objs \<longleftrightarrow>
     (\<forall>n \<in> set objs. it_start n \<le> it_last n) \<and> distinct objs \<and>
     (\<forall>a \<in> set objs. \<forall>c \<in> set objs. a \<noteq> c \<longrightarrow> \<not> it_overlaps a (it_start c) (it_last c))"
proof (induction objs)
  case Nil
  then show ?case by (simp add: no_overlap_def)
next
  case (Cons x xs)
  have step: "no_overlap (x # xs) \<longleftrightarrow>
      it_start x \<le> it_last x \<and> (\<forall>y \<in> set xs. it_range x \<inter> it_range y = {}) \<and> no_overlap xs"
    by (auto simp: no_overlap_def)
  show ?case
  proof
    assume l: "no_overlap (x # xs)"
    then have wx: "it_start x \<le> it_last x" and dx: "\<forall>y \<in> set xs. it_range x \<inter> it_range y = {}"
      and nx: "no_overlap xs" by (simp_all add: step)
    from nx Cons.IH have ih: "\<forall>n \<in> set xs. it_start n \<le> it_last n" "distinct xs"
      "\<forall>a \<in> set xs. \<forall>c \<in> set xs. a \<noteq> c \<longrightarrow> \<not> it_overlaps a (it_start c) (it_last c)"
      by simp_all
    have "x \<notin> set xs"
    proof
      assume "x \<in> set xs"
      with dx have "it_range x = {}" by auto
      with wx show False by (simp add: it_range_def)
    qed
    moreover have "\<forall>y \<in> set xs. \<not> it_overlaps x (it_start y) (it_last y) \<and> \<not> it_overlaps y (it_start x) (it_last x)"
      using dx wx ih(1) by (auto simp: it_overlaps_def it_range_def)
    ultimately show "(\<forall>n \<in> set (x # xs). it_start n \<le> it_last n) \<and> distinct (x # xs) \<and>
     (\<forall>a \<in> set (x # xs). \<forall>c \<in> set (x # xs). a \<noteq> c \<longrightarrow> \<not> it_overlaps a (it_start c) (it_last c))"
      using wx ih by auto
  next
    assume r: "(\<forall>n \<in> set (x # xs). it_start n \<le> it_last n) \<and> distinct (x # xs) \<and>
     (\<forall>a \<in> set (x # xs). \<forall>c \<in> set (x # xs). a \<noteq> c \<longrightarrow> \<not> it_overlaps a (it_start c) (it_last c))"
    then have "no_overlap xs" using Cons.IH by auto
    moreover have "\<forall>y \<in> set xs. it_range x \<inter> it_range y = {}"
    proof
      fix y assume y: "y \<in> set xs"
      with r have "x \<noteq> y" by auto
      with r y have "\<not> it_overlaps x (it_start y) (it_last y)" by auto
      moreover from r y have "it_start x \<le> it_last x" "it_start y \<le> it_last y" by auto
      ultimately show "it_range x \<inter> it_range y = {}" by (simp add: it_range_disjoint_iff)
    qed
    ultimately show "no_overlap (x # xs)" using r by (simp add: step)
  qed
qed

lemma register_loop_None:
  "interval_tree_iter_first objs addr e = None \<Longrightarrow>
   amdgpu_mn_register_loop objs addr e bs node = (objs, addr, e, bs, node)"
  by simp

lemma register_loop_Some:
  "interval_tree_iter_first objs addr e = Some itn \<Longrightarrow>
   amdgpu_mn_register_loop objs addr e bs node =
     amdgpu_mn_register_loop (interval_tree_remove itn objs)
       (min (it_start itn) addr) (max (it_last itn) e) (bos itn @ bs) (Some itn)"
  by simp

declare amdgpu_mn_register_loop.simps [simp del]

text \<open>What the loop guarantees for any tree.\<close>

lemma register_loop_exit:
  "amdgpu_mn_register_loop objs addr e bs node = (objs', a', e', bs', node') \<Longrightarrow>
     set objs' \<subseteq> set objs \<and> (distinct objs \<longrightarrow> distinct objs') \<and>
     (\<forall>n \<in> set objs'. \<not> it_overlaps n a' e') \<and> a' \<le> addr \<and> e \<le> e' \<and>
     (node' = None \<longrightarrow> node = None \<and> objs' = objs \<and> a' = addr \<and> e' = e \<and> bs' = bs)"
proof (induction objs addr e bs node rule: amdgpu_mn_register_loop.induct)
  case (1 objs addr e bs node)
  show ?case
  proof (cases "interval_tree_iter_first objs addr e")
    case None
    with "1.prems" have "objs' = objs" "a' = addr" "e' = e" "bs' = bs" "node' = node"
      by (simp_all add: register_loop_None)
    moreover from None have "\<forall>n \<in> set objs. \<not> it_overlaps n addr e"
      by (simp add: interval_tree_iter_first_def find_None_iff)
    ultimately show ?thesis by simp
  next
    case (Some itn)
    with "1.prems" have
      "amdgpu_mn_register_loop (interval_tree_remove itn objs) (min (it_start itn) addr)
         (max (it_last itn) e) (bos itn @ bs) (Some itn) = (objs', a', e', bs', node')"
      by (simp add: register_loop_Some)
    from "1.IH" [OF Some this] have ih:
      "set objs' \<subseteq> set (remove1 itn objs)"
      "distinct (remove1 itn objs) \<longrightarrow> distinct objs'"
      "\<forall>n \<in> set objs'. \<not> it_overlaps n a' e'"
      "a' \<le> min (it_start itn) addr" "max (it_last itn) e \<le> e'" "node' \<noteq> None"
      by (simp_all add: interval_tree_remove_def)
    have "set (remove1 itn objs) \<subseteq> set objs" by (rule set_remove1_subset)
    with ih(1) have "set objs' \<subseteq> set objs" by blast
    moreover from ih(2) have "distinct objs \<longrightarrow> distinct objs'" by simp
    moreover from ih(4,5) have "a' \<le> addr" "e \<le> e'" by simp_all
    ultimately show ?thesis using ih(3,6) by auto
  qed
qed


lemma mset_interval_tree_insert:
  "mset (interval_tree_insert n objs) = add_mset n (mset objs)"
proof -
  let ?P = "\<lambda>x. it_start x \<le> it_start n"
  have "mset (takeWhile ?P objs) + mset (dropWhile ?P objs) = mset objs"
    by (metis mset_append takeWhile_dropWhile_id)
  then show ?thesis by (simp add: interval_tree_insert_def)
qed

lemma set_interval_tree_insert: "set (interval_tree_insert n objs) = insert n (set objs)"
  using arg_cong [OF mset_interval_tree_insert, of set_mset n objs] by simp

lemma distinct_interval_tree_insert:
  "distinct (interval_tree_insert n objs) \<longleftrightarrow> n \<notin> set objs \<and> distinct objs"
  using mset_interval_tree_insert [of n objs]
  by (metis distinct.simps(2) mset_eq_imp_distinct_iff mset.simps(2))

lemma no_overlap_insert:
  assumes ok: "no_overlap objs" and wf: "it_start n \<le> it_last n"
    and free: "\<forall>c \<in> set objs. \<not> it_overlaps c (it_start n) (it_last n)"
  shows "no_overlap (interval_tree_insert n objs)"
proof -
  from ok have o: "\<forall>n \<in> set objs. it_start n \<le> it_last n" "distinct objs"
    "\<forall>a \<in> set objs. \<forall>c \<in> set objs. a \<noteq> c \<longrightarrow> \<not> it_overlaps a (it_start c) (it_last c)"
    by (simp_all add: no_overlap_iff)
  have nin: "n \<notin> set objs"
  proof
    assume "n \<in> set objs"
    with free have "\<not> it_overlaps n (it_start n) (it_last n)" by blast
    with wf show False by (simp add: it_overlaps_def)
  qed
  have sym: "\<forall>c \<in> set objs. \<not> it_overlaps n (it_start c) (it_last c)"
    using free by (auto simp: it_overlaps_def)
  show ?thesis
    unfolding no_overlap_iff set_interval_tree_insert distinct_interval_tree_insert
    using o wf free sym nin by auto
qed

lemma no_overlap_subset:
  "no_overlap objs \<Longrightarrow> set objs' \<subseteq> set objs \<Longrightarrow> distinct objs' \<Longrightarrow> no_overlap objs'"
  unfolding no_overlap_iff by blast

lemma register_loop_no_overlap:
  assumes "amdgpu_mn_register_loop objs addr e bs node = (objs', a', e', bs', node')"
    and "no_overlap objs" and "addr \<le> e"
  shows "no_overlap (interval_tree_insert \<lparr>it_start = a', it_last = e', bos = l\<rparr> objs')"
proof -
  from register_loop_exit [OF assms(1)] have x:
    "set objs' \<subseteq> set objs" "distinct objs \<longrightarrow> distinct objs'"
    "\<forall>n \<in> set objs'. \<not> it_overlaps n a' e'" "a' \<le> addr" "e \<le> e'"
    by simp_all
  from assms(2) have "distinct objs" by (simp add: no_overlap_iff)
  with x assms(2) have "no_overlap objs'" by (auto intro: no_overlap_subset)
  moreover from x(4,5) assms(3) have "a' \<le> e'" by simp
  ultimately show ?thesis using x(3) by (intro no_overlap_insert) simp_all
qed


lemma mn_get_result:
  assumes "amdgpu_mn_get env adev t = (r, adev')"
  shows "bo adev' = bo adev"
    and "nodes_of adev' k = nodes_of adev k"
    and "mn_hash adev k = Some rmn' \<Longrightarrow> mn_hash adev' k = Some rmn'"
    and "r = Inl err \<Longrightarrow> adev' = adev \<and> err \<noteq> 0"
    and "r = Inr (key, rmn) \<Longrightarrow>
           key = AMDGPU_MN_KEY (current_mm env) t \<and> mn_hash adev' key = Some rmn \<and>
           objects rmn = nodes_of adev key"
  using assms
  by (auto simp: amdgpu_mn_get_def Let_def nodes_of_def EINTR_def ENOMEM_def
      split: if_splits option.splits)


lemma register_unfold:
  assumes "amdgpu_mn_get env adev
             (if kfd_bo (bo adev b) \<noteq> 0 then AMDGPU_MN_TYPE_HSA else AMDGPU_MN_TYPE_GFX) =
           (Inr (key, rmn), adev1)"
    and "amdgpu_mn_register_loop (objects rmn) addr (req_last adev b addr) [] None =
           (objs, a', e', bs', node')"
  shows "amdgpu_mn_register env adev b addr =
     (if node' = None \<and> \<not> kmalloc_node env then (- ENOMEM, adev1)
      else (0, adev1\<lparr>bo := (bo adev1)(b := (bo adev1 b)\<lparr>mn := Some key\<rparr>),
                    mn_hash := (mn_hash adev1)
                      (key \<mapsto> rmn\<lparr>objects :=
                         interval_tree_insert \<lparr>it_start = a', it_last = e', bos = b # bs'\<rparr> objs\<rparr>)\<rparr>))"
  using assms by (simp add: amdgpu_mn_register_def req_last_def Let_def)

lemma register_unfold_err:
  assumes "amdgpu_mn_get env adev
             (if kfd_bo (bo adev b) \<noteq> 0 then AMDGPU_MN_TYPE_HSA else AMDGPU_MN_TYPE_GFX) =
           (Inl err, adev1)"
  shows "amdgpu_mn_register env adev b addr = (err, adev1)"
  using assms by (simp add: amdgpu_mn_register_def Let_def)

text \<open>A failing call.\<close>

lemma register_failure:
  assumes "amdgpu_mn_register env adev b addr = (r, adev')" and "r \<noteq> 0"
  shows "bo adev' = bo adev"
    and "nodes_of adev' k = nodes_of adev k"
    and "mn_hash adev k = Some rmn' \<Longrightarrow> mn_hash adev' k = Some rmn'"
    and "fst (amdgpu_mn_get env adev
               (if kfd_bo (bo adev b) \<noteq> 0 then AMDGPU_MN_TYPE_HSA else AMDGPU_MN_TYPE_GFX)) =
           Inr (key, rmn) \<Longrightarrow>
         interval_tree_iter_first (objects rmn) addr (req_last adev b addr) = None \<and>
         \<not> kmalloc_node env"
proof -
  let ?t = "if kfd_bo (bo adev b) \<noteq> 0 then AMDGPU_MN_TYPE_HSA else AMDGPU_MN_TYPE_GFX"
  obtain g adev1 where g: "amdgpu_mn_get env adev ?t = (g, adev1)" by (cases "amdgpu_mn_get env adev ?t")
  have "bo adev' = bo adev \<and> nodes_of adev' k = nodes_of adev k \<and>
        (mn_hash adev k = Some rmn' \<longrightarrow> mn_hash adev' k = Some rmn') \<and>
        (g = Inr (key, rmn) \<longrightarrow>
           interval_tree_iter_first (objects rmn) addr (req_last adev b addr) = None \<and>
           \<not> kmalloc_node env)"
  proof (cases g)
    case (Inl err)
    with g assms(1) have "adev' = adev1" by (simp add: register_unfold_err)
    with mn_get_result(1-3) [OF g] Inl show ?thesis by simp
  next
    case (Inr kr)
    obtain key1 rmn1 where kr: "kr = (key1, rmn1)" by (cases kr)
    obtain objs a' e' bs' node' where
      l: "amdgpu_mn_register_loop (objects rmn1) addr (req_last adev b addr) [] None =
           (objs, a', e', bs', node')"
      by (cases "amdgpu_mn_register_loop (objects rmn1) addr (req_last adev b addr) [] None")
    from g Inr kr have g1: "amdgpu_mn_get env adev ?t = (Inr (key1, rmn1), adev1)" by simp
    from register_unfold [OF g1 l] assms have n: "node' = None" "\<not> kmalloc_node env" "adev' = adev1"
      by (auto split: if_splits)
    from register_loop_exit [OF l] n(1) have "\<forall>n \<in> set (objects rmn1). \<not> it_overlaps n addr (req_last adev b addr)"
      by auto
    then have "interval_tree_iter_first (objects rmn1) addr (req_last adev b addr) = None"
      by (simp add: interval_tree_iter_first_def find_None_iff)
    with mn_get_result(1-3) [OF g] n Inr kr show ?thesis by auto
  qed
  with g show "bo adev' = bo adev" "nodes_of adev' k = nodes_of adev k"
    "mn_hash adev k = Some rmn' \<Longrightarrow> mn_hash adev' k = Some rmn'"
    "fst (amdgpu_mn_get env adev ?t) = Inr (key, rmn) \<Longrightarrow>
         interval_tree_iter_first (objects rmn) addr (req_last adev b addr) = None \<and>
         \<not> kmalloc_node env"
    by simp_all
qed

text \<open>A successful call.\<close>

lemma register_success:
  assumes "amdgpu_mn_register env adev b addr = (0, adev')"
  shows "\<exists>objs a' e' bs' node'.
     amdgpu_mn_register_loop (nodes_of adev (req_key env adev b)) addr (req_last adev b addr) [] None =
       (objs, a', e', bs', node') \<and>
     nodes_of adev' (req_key env adev b) =
       interval_tree_insert \<lparr>it_start = a', it_last = e', bos = b # bs'\<rparr> objs \<and>
     (\<forall>k. k \<noteq> req_key env adev b \<longrightarrow> nodes_of adev' k = nodes_of adev k) \<and>
     bo adev' = (bo adev)(b := (bo adev b)\<lparr>mn := Some (req_key env adev b)\<rparr>)"
proof -
  let ?t = "if kfd_bo (bo adev b) \<noteq> 0 then AMDGPU_MN_TYPE_HSA else AMDGPU_MN_TYPE_GFX"
  obtain g adev1 where g: "amdgpu_mn_get env adev ?t = (g, adev1)" by (cases "amdgpu_mn_get env adev ?t")
  show ?thesis
  proof (cases g)
    case (Inl err)
    with g assms mn_get_result(4) [OF g, of err] show ?thesis by (simp add: register_unfold_err)
  next
    case (Inr kr)
    obtain key1 rmn1 where kr: "kr = (key1, rmn1)" by (cases kr)
    from g Inr kr have g1: "amdgpu_mn_get env adev ?t = (Inr (key1, rmn1), adev1)" by simp
    have gi: "g = Inr (key1, rmn1)" using Inr kr by simp
    note k0 = mn_get_result(5) [OF g gi]
    have k: "key1 = req_key env adev b" "mn_hash adev1 key1 = Some rmn1"
      "objects rmn1 = nodes_of adev key1"
      unfolding req_key_def using k0 by blast+
    obtain objs a' e' bs' node' where
      l: "amdgpu_mn_register_loop (objects rmn1) addr (req_last adev b addr) [] None =
           (objs, a', e', bs', node')"
      by (cases "amdgpu_mn_register_loop (objects rmn1) addr (req_last adev b addr) [] None")
    from register_unfold [OF g1 l] assms have
      a: "adev' = adev1\<lparr>bo := (bo adev1)(b := (bo adev1 b)\<lparr>mn := Some key1\<rparr>),
                    mn_hash := (mn_hash adev1)
                      (key1 \<mapsto> rmn1\<lparr>objects :=
                         interval_tree_insert \<lparr>it_start = a', it_last = e', bos = b # bs'\<rparr> objs\<rparr>)\<rparr>"
      by (auto simp: ENOMEM_def split: if_splits)
    have "nodes_of adev' key1 = interval_tree_insert \<lparr>it_start = a', it_last = e', bos = b # bs'\<rparr> objs"
      by (simp add: a nodes_of_def)
    moreover have "\<forall>k. k \<noteq> key1 \<longrightarrow> nodes_of adev' k = nodes_of adev k"
      using mn_get_result(2) [OF g] by (simp add: a nodes_of_def)
    moreover have "bo adev' = (bo adev)(b := (bo adev b)\<lparr>mn := Some key1\<rparr>)"
      using mn_get_result(1) [OF g] by (simp add: a)
    ultimately show ?thesis using l k by auto
  qed
qed


lemma register_index_ok:
  assumes ok: "index_ok adev" and ne: "addr \<le> req_last adev b addr"
  shows "index_ok (snd (amdgpu_mn_register env adev b addr))"
proof -
  obtain r adev' where r: "amdgpu_mn_register env adev b addr = (r, adev')"
    by (cases "amdgpu_mn_register env adev b addr")
  have "index_ok adev'"
  proof (cases "r = 0")
    case False
    from register_failure(2) [OF r False] ok show ?thesis by (simp add: index_ok_def)
  next
    case True
    with r have "amdgpu_mn_register env adev b addr = (0, adev')" by simp
    from register_success [OF this] obtain objs a' e' bs' node' where
      l: "amdgpu_mn_register_loop (nodes_of adev (req_key env adev b)) addr (req_last adev b addr) [] None =
            (objs, a', e', bs', node')"
      and n: "nodes_of adev' (req_key env adev b) =
            interval_tree_insert \<lparr>it_start = a', it_last = e', bos = b # bs'\<rparr> objs"
      and o: "\<forall>k. k \<noteq> req_key env adev b \<longrightarrow> nodes_of adev' k = nodes_of adev k"
      by blast
    from ok have "no_overlap (nodes_of adev (req_key env adev b))" by (simp add: index_ok_def)
    from register_loop_no_overlap [OF l this ne] n
    have "no_overlap (nodes_of adev' (req_key env adev b))" by simp
    with o ok show ?thesis unfolding index_ok_def by metis
  qed
  with r show ?thesis by simp
qed

lemma register_bo_size: "bo_size (bo (snd (amdgpu_mn_register env adev b addr)) c) = bo_size (bo adev c)"
proof -
  obtain r adev' where r: "amdgpu_mn_register env adev b addr = (r, adev')"
    by (cases "amdgpu_mn_register env adev b addr")
  show ?thesis
  proof (cases "r = 0")
    case False
    from register_failure(1) [OF r False] r show ?thesis by simp
  next
    case True
    with r have "amdgpu_mn_register env adev b addr = (0, adev')" by simp
    from register_success [OF this] r show ?thesis by auto
  qed
qed

lemma register_calls_index_ok:
  assumes "index_ok adev" and "\<forall>(env, b, addr) \<in> set calls. addr \<le> req_last adev b addr"
  shows "index_ok (register_calls adev calls)"
  using assms
proof (induction calls arbitrary: adev)
  case Nil
  then show ?case by simp
next
  case (Cons c calls)
  obtain env b addr where c: "c = (env, b, addr)" by (cases c)
  let ?adev = "snd (amdgpu_mn_register env adev b addr)"
  from Cons.prems c have "index_ok ?adev" by (intro register_index_ok) auto
  moreover have "\<forall>(env', b', addr') \<in> set calls. addr' \<le> req_last ?adev b' addr'"
    using Cons.prems(2) by (auto simp: req_last_def register_bo_size)
  ultimately show ?case using Cons.IH c by simp
qed

text \<open>The exact result of the loop on an index that satisfies the invariant.\<close>

lemma overlap_widened:
  assumes "it_overlaps itn addr e" and "addr \<le> e"
    and "it_start itn \<le> it_last itn" and "it_start n \<le> it_last n"
    and "\<not> it_overlaps n (it_start itn) (it_last itn)"
  shows "it_overlaps n (min (it_start itn) addr) (max (it_last itn) e) \<longleftrightarrow> it_overlaps n addr e"
  using assms by (auto simp: it_overlaps_def min_def max_def)

lemma register_loop_exact:
  assumes "no_overlap objs" and "addr \<le> e"
  shows "amdgpu_mn_register_loop objs addr e bs node =
     (filter (\<lambda>n. \<not> it_overlaps n addr e) objs,
      fold min (map it_start (filter (\<lambda>n. it_overlaps n addr e) objs)) addr,
      fold max (map it_last (filter (\<lambda>n. it_overlaps n addr e) objs)) e,
      concat (map bos (rev (filter (\<lambda>n. it_overlaps n addr e) objs))) @ bs,
      (if filter (\<lambda>n. it_overlaps n addr e) objs = [] then node
       else Some (last (filter (\<lambda>n. it_overlaps n addr e) objs))))"
  using assms
proof (induction objs addr e bs node rule: amdgpu_mn_register_loop.induct)
  case (1 objs addr e bs node)
  let ?ov = "filter (\<lambda>n. it_overlaps n addr e) objs"
  show ?case
  proof (cases "interval_tree_iter_first objs addr e")
    case None
    then have "?ov = []" by (simp add: interval_tree_iter_first_def find_as_filter split: list.splits)
    moreover from this have "filter (\<lambda>n. \<not> it_overlaps n addr e) objs = objs"
      by (simp add: filter_empty_conv)
    ultimately show ?thesis using None by (simp add: register_loop_None)
  next
    case (Some itn)
    then obtain rest where ov: "?ov = itn # rest"
      by (auto simp: interval_tree_iter_first_def find_as_filter split: list.splits)
    then have "itn \<in> set ?ov" by simp
    then have itn: "itn \<in> set objs" "it_overlaps itn addr e" by simp_all
    from "1.prems"(1) have o: "\<forall>n \<in> set objs. it_start n \<le> it_last n" "distinct objs"
      "\<forall>a \<in> set objs. \<forall>c \<in> set objs. a \<noteq> c \<longrightarrow> \<not> it_overlaps a (it_start c) (it_last c)"
      by (simp_all add: no_overlap_iff)
    let ?objs2 = "interval_tree_remove itn objs"
    let ?a2 = "min (it_start itn) addr" and ?e2 = "max (it_last itn) e"
    have ok2: "no_overlap ?objs2"
      using "1.prems"(1) o(2) by (auto intro!: no_overlap_subset [of objs] simp: interval_tree_remove_def dest: notin_set_remove1)
    have ne2: "?a2 \<le> ?e2" using "1.prems"(2) by (simp add: min_le_iff_disj le_max_iff_disj)
    have same: "\<forall>n \<in> set ?objs2. it_overlaps n ?a2 ?e2 \<longleftrightarrow> it_overlaps n addr e"
    proof
      fix n assume "n \<in> set ?objs2"
      then have n: "n \<in> set objs" "n \<noteq> itn"
        using o(2) by (auto simp: interval_tree_remove_def)
      with o itn have "\<not> it_overlaps n (it_start itn) (it_last itn)" "it_start n \<le> it_last n"
        "it_start itn \<le> it_last itn" by auto
      with itn(2) "1.prems"(2) show "it_overlaps n ?a2 ?e2 \<longleftrightarrow> it_overlaps n addr e"
        by (intro overlap_widened)
    qed
    have f1: "filter (\<lambda>n. it_overlaps n ?a2 ?e2) ?objs2 = rest"
    proof -
      have "filter (\<lambda>n. it_overlaps n ?a2 ?e2) ?objs2 = filter (\<lambda>n. it_overlaps n addr e) ?objs2"
        using same by (intro filter_cong) auto
      also have "\<dots> = remove1 itn ?ov" by (simp add: interval_tree_remove_def filter_remove1)
      finally show ?thesis by (simp add: ov)
    qed
    have f2: "filter (\<lambda>n. \<not> it_overlaps n ?a2 ?e2) ?objs2 = filter (\<lambda>n. \<not> it_overlaps n addr e) objs"
    proof -
      have "filter (\<lambda>n. \<not> it_overlaps n ?a2 ?e2) ?objs2 = filter (\<lambda>n. \<not> it_overlaps n addr e) ?objs2"
        using same by (intro filter_cong) auto
      also have "\<dots> = remove1 itn (filter (\<lambda>n. \<not> it_overlaps n addr e) objs)"
        by (simp add: interval_tree_remove_def filter_remove1)
      also have "\<dots> = filter (\<lambda>n. \<not> it_overlaps n addr e) objs"
        using itn(2) by (intro remove1_idem) simp
      finally show ?thesis .
    qed
    from "1.IH" [OF Some ok2 ne2]
    show ?thesis
      by (simp add: register_loop_Some [OF Some] f1 f2 ov)
  qed
qed


lemma interval_hull:
  fixes a e s l :: u64
  assumes "a \<le> e" "s \<le> l" "s \<le> e" "a \<le> l"
  shows "{min s a .. max l e} = {a..e} \<union> {s..l}"
  using assms by (auto simp: min_def max_def)

lemma merged_range:
  assumes "addr \<le> e" and "\<forall>n \<in> set ns. it_start n \<le> it_last n \<and> it_overlaps n addr e"
  shows "{fold min (map it_start ns) addr .. fold max (map it_last ns) e} =
           {addr..e} \<union> \<Union> (it_range ` set ns)"
  using assms
proof (induction ns arbitrary: addr e)
  case Nil
  then show ?case by simp
next
  case (Cons n ns)
  from Cons.prems have n: "it_start n \<le> it_last n" "it_start n \<le> e" "addr \<le> it_last n"
    by (simp_all add: it_overlaps_def)
  have "min (it_start n) addr \<le> max (it_last n) e"
    using Cons.prems(1) by (simp add: min_le_iff_disj le_max_iff_disj)
  moreover have "\<forall>m \<in> set ns. it_start m \<le> it_last m \<and>
      it_overlaps m (min (it_start n) addr) (max (it_last n) e)"
    using Cons.prems(2) by (auto simp: it_overlaps_def min_le_iff_disj le_max_iff_disj)
  ultimately have "{fold min (map it_start ns) (min (it_start n) addr) ..
        fold max (map it_last ns) (max (it_last n) e)} =
      {min (it_start n) addr .. max (it_last n) e} \<union> \<Union> (it_range ` set ns)"
    by (rule Cons.IH)
  also have "{min (it_start n) addr .. max (it_last n) e} = {addr..e} \<union> it_range n"
    unfolding it_range_def using Cons.prems(1) n by (intro interval_hull)
  finally show ?case by (simp add: Un_assoc)
qed

lemma register_success_exact:
  assumes ok: "index_ok adev" and ne: "addr \<le> req_last adev b addr"
    and r: "amdgpu_mn_register env adev b addr = (0, adev')"
  shows "\<exists>new.
     nodes_of adev' (req_key env adev b) =
       interval_tree_insert new
         (filter (\<lambda>n. it_range n \<inter> {addr .. req_last adev b addr} = {})
            (nodes_of adev (req_key env adev b))) \<and>
     it_range new = {addr .. req_last adev b addr} \<union>
       \<Union> (it_range ` {n \<in> set (nodes_of adev (req_key env adev b)).
                        it_range n \<inter> {addr .. req_last adev b addr} \<noteq> {}}) \<and>
     set (bos new) = insert b
       (\<Union> ((\<lambda>n. set (bos n)) ` {n \<in> set (nodes_of adev (req_key env adev b)).
                        it_range n \<inter> {addr .. req_last adev b addr} \<noteq> {}}))"
proof -
  let ?key = "req_key env adev b" and ?e = "req_last adev b addr"
  let ?objs = "nodes_of adev ?key"
  let ?ov = "filter (\<lambda>n. it_overlaps n addr ?e) ?objs"
  let ?new = "\<lparr>it_start = fold min (map it_start ?ov) addr,
               it_last = fold max (map it_last ?ov) ?e,
               bos = b # concat (map bos (rev ?ov)) @ []\<rparr>"
  from ok have no: "no_overlap ?objs" by (simp add: index_ok_def)
  then have wf: "\<forall>n \<in> set ?objs. it_start n \<le> it_last n" by (simp add: no_overlap_iff)
  have sem: "\<forall>n \<in> set ?objs. it_overlaps n addr ?e \<longleftrightarrow> it_range n \<inter> {addr .. ?e} \<noteq> {}"
    using wf ne by (simp add: it_overlaps_iff_range)
  from register_success [OF r] register_loop_exact [OF no ne, of "[]" None]
  have n: "nodes_of adev' ?key =
      interval_tree_insert ?new (filter (\<lambda>n. \<not> it_overlaps n addr ?e) ?objs)"
    by auto
  have f: "filter (\<lambda>n. \<not> it_overlaps n addr ?e) ?objs =
      filter (\<lambda>n. it_range n \<inter> {addr .. ?e} = {}) ?objs"
    using sem by (intro filter_cong) auto
  have s: "set ?ov = {n \<in> set ?objs. it_range n \<inter> {addr .. ?e} \<noteq> {}}"
    using sem by auto
  have "it_range ?new = {addr .. ?e} \<union> \<Union> (it_range ` set ?ov)"
    unfolding it_range_def [of ?new] using ne wf by (simp add: merged_range)
  moreover have "set (bos ?new) = insert b (\<Union> ((\<lambda>n. set (bos n)) ` set ?ov))"
    by auto
  ultimately show ?thesis using n unfolding f s by blast
qed

lemma fresh_index_ok: "index_ok (fresh_device sz kf)"
  by (simp add: index_ok_def fresh_device_def nodes_of_def no_overlap_def)

text \<open>
  Claim C1.  Let every context of the device have an index whose nodes cover at least
  one address each and pairwise share no address.  After any sequence of calls of
  \<^verbatim>\<open>amdgpu_mn_register\<close> whose ranges \<open>[addr, addr + size - 1]\<close> are not empty,
  failed calls included, this still holds.  A successful call removes from the index
  of its context exactly the nodes that share an address with the requested range
  and inserts one node; the range of this node is the union of the requested range
  and the ranges of the removed nodes, and its list holds the buffer objects of the
  removed nodes and the new buffer object.  On a device without contexts, registering
  buffer 1 at \<open>[0, 999]\<close> and buffer 2 at \<open>[1000, 1999]\<close> gives two nodes, and
  registering buffer 3 at \<open>[500, 1499]\<close> then leaves the single node
  \<open>[0, 1999]\<close> with the buffers 1, 2 and 3.
\<close>

theorem register_keeps_index_disjoint:
  assumes "index_ok adev"
    and "\<forall>(env, b, addr) \<in> set calls. addr \<le> req_last adev b addr"
  shows "index_ok (register_calls adev calls) \<and>
    (\<forall>env b addr adev'.
       addr \<le> req_last adev b addr \<and> amdgpu_mn_register env adev b addr = (0, adev') \<longrightarrow>
       (\<exists>new.
          nodes_of adev' (req_key env adev b) =
            interval_tree_insert new
              (filter (\<lambda>n. it_range n \<inter> {addr .. req_last adev b addr} = {})
                 (nodes_of adev (req_key env adev b))) \<and>
          it_range new = {addr .. req_last adev b addr} \<union>
            \<Union> (it_range ` {n \<in> set (nodes_of adev (req_key env adev b)).
                             it_range n \<inter> {addr .. req_last adev b addr} \<noteq> {}}) \<and>
          set (bos new) = insert b
            (\<Union> ((\<lambda>n. set (bos n)) ` {n \<in> set (nodes_of adev (req_key env adev b)).
                             it_range n \<inter> {addr .. req_last adev b addr} \<noteq> {}})))) \<and>
    index_ok (fresh_device (\<lambda>b. 1000) (\<lambda>b. 0)) \<and>
    nodes_of (register_calls (fresh_device (\<lambda>b. 1000) (\<lambda>b. 0))
      [(env_ok 4096, 1, 0), (env_ok 4096, 2, 1000)]) 4096 =
     [\<lparr>it_start = 0, it_last = 999, bos = [1]\<rparr>, \<lparr>it_start = 1000, it_last = 1999, bos = [2]\<rparr>] \<and>
    nodes_of (register_calls (fresh_device (\<lambda>b. 1000) (\<lambda>b. 0))
      [(env_ok 4096, 1, 0), (env_ok 4096, 2, 1000), (env_ok 4096, 3, 500)]) 4096 =
     [\<lparr>it_start = 0, it_last = 1999, bos = [3, 2, 1]\<rparr>]"
proof -
  have p1: "index_ok (register_calls adev calls)"
    using assms by (rule register_calls_index_ok)
  have p2: "\<forall>env b addr adev'.
       addr \<le> req_last adev b addr \<and> amdgpu_mn_register env adev b addr = (0, adev') \<longrightarrow>
       (\<exists>new.
          nodes_of adev' (req_key env adev b) =
            interval_tree_insert new
              (filter (\<lambda>n. it_range n \<inter> {addr .. req_last adev b addr} = {})
                 (nodes_of adev (req_key env adev b))) \<and>
          it_range new = {addr .. req_last adev b addr} \<union>
            \<Union> (it_range ` {n \<in> set (nodes_of adev (req_key env adev b)).
                             it_range n \<inter> {addr .. req_last adev b addr} \<noteq> {}}) \<and>
          set (bos new) = insert b
            (\<Union> ((\<lambda>n. set (bos n)) ` {n \<in> set (nodes_of adev (req_key env adev b)).
                             it_range n \<inter> {addr .. req_last adev b addr} \<noteq> {}})))"
  proof (intro allI impI)
    fix env b addr adev'
    assume a: "addr \<le> req_last adev b addr \<and> amdgpu_mn_register env adev b addr = (0, adev')"
    then have "addr \<le> req_last adev b addr" "amdgpu_mn_register env adev b addr = (0, adev')"
      by simp_all
    then show "\<exists>new.
          nodes_of adev' (req_key env adev b) =
            interval_tree_insert new
              (filter (\<lambda>n. it_range n \<inter> {addr .. req_last adev b addr} = {})
                 (nodes_of adev (req_key env adev b))) \<and>
          it_range new = {addr .. req_last adev b addr} \<union>
            \<Union> (it_range ` {n \<in> set (nodes_of adev (req_key env adev b)).
                             it_range n \<inter> {addr .. req_last adev b addr} \<noteq> {}}) \<and>
          set (bos new) = insert b
            (\<Union> ((\<lambda>n. set (bos n)) ` {n \<in> set (nodes_of adev (req_key env adev b)).
                             it_range n \<inter> {addr .. req_last adev b addr} \<noteq> {}}))"
      by (rule register_success_exact [OF assms(1)])
  qed
  have p3: "nodes_of (register_calls (fresh_device (\<lambda>b. 1000) (\<lambda>b. 0))
      [(env_ok 4096, 1, 0), (env_ok 4096, 2, 1000)]) 4096 =
     [\<lparr>it_start = 0, it_last = 999, bos = [1]\<rparr>, \<lparr>it_start = 1000, it_last = 1999, bos = [2]\<rparr>]"
    by (simp add: fresh_device_def env_ok_def amdgpu_mn_register_def amdgpu_mn_get_def
      AMDGPU_MN_KEY_def interval_tree_iter_first_def interval_tree_insert_def
      interval_tree_remove_def it_overlaps_def nodes_of_def Let_def register_loop_None register_loop_Some)
  have p4: "nodes_of (register_calls (fresh_device (\<lambda>b. 1000) (\<lambda>b. 0))
      [(env_ok 4096, 1, 0), (env_ok 4096, 2, 1000), (env_ok 4096, 3, 500)]) 4096 =
     [\<lparr>it_start = 0, it_last = 1999, bos = [3, 2, 1]\<rparr>]"
    by (simp add: fresh_device_def env_ok_def amdgpu_mn_register_def amdgpu_mn_get_def
      AMDGPU_MN_KEY_def interval_tree_iter_first_def interval_tree_insert_def
      interval_tree_remove_def it_overlaps_def nodes_of_def Let_def register_loop_None register_loop_Some)
  from p1 p2 fresh_index_ok p3 p4 show ?thesis by (intro conjI)
qed

text \<open>
  The three calls of the scenario satisfy the hypotheses on the device without
  contexts.
\<close>

theorem register_keeps_index_disjoint_witness:
  "index_ok (fresh_device (\<lambda>b. 1000) (\<lambda>b. 0)) \<and>
   (0::u64) \<le> req_last (fresh_device (\<lambda>b. 1000) (\<lambda>b. 0)) 1 0 \<and>
   (1000::u64) \<le> req_last (fresh_device (\<lambda>b. 1000) (\<lambda>b. 0)) 2 1000 \<and>
   (500::u64) \<le> req_last (fresh_device (\<lambda>b. 1000) (\<lambda>b. 0)) 3 500 \<and>
   index_ok (register_calls (fresh_device (\<lambda>b. 1000) (\<lambda>b. 0))
      [(env_ok 4096, 1, 0), (env_ok 4096, 2, 1000), (env_ok 4096, 3, 500)]) \<and>
   nodes_of (register_calls (fresh_device (\<lambda>b. 1000) (\<lambda>b. 0))
      [(env_ok 4096, 1, 0), (env_ok 4096, 2, 1000), (env_ok 4096, 3, 500)]) 4096 =
     [\<lparr>it_start = 0, it_last = 1999, bos = [3, 2, 1]\<rparr>]"
proof -
  let ?F = "fresh_device (\<lambda>b. 1000) (\<lambda>b. 0)"
  let ?calls = "[(env_ok 4096, 1, 0), (env_ok 4096, 2, 1000), (env_ok 4096, 3, 500)]"
  have h1: "index_ok ?F"
    by (simp add: index_ok_def fresh_device_def nodes_of_def no_overlap_def)
  have h2: "(0::u64) \<le> req_last ?F 1 0" "(1000::u64) \<le> req_last ?F 2 1000"
    "(500::u64) \<le> req_last ?F 3 500"
    by (simp_all add: req_last_def fresh_device_def)
  then have h3: "\<forall>(env, b, addr) \<in> set ?calls. addr \<le> req_last ?F b addr" by simp
  note t = register_keeps_index_disjoint [OF h1 h3]
  from t have a: "index_ok (register_calls ?F ?calls)" by (rule conjunct1)
  from t have b: "nodes_of (register_calls ?F ?calls) 4096 =
      [\<lparr>it_start = 0, it_last = 1999, bos = [3, 2, 1]\<rparr>]"
    by (elim conjE)
  from h1 h2 a b show ?thesis by (intro conjI)
qed

section \<open>Back-references and registration sets\<close>

lemma bos_mset_simps [simp]:
  "bos_mset [] = {#}" "bos_mset (n # ns) = mset (bos n) + bos_mset ns"
  "bos_mset (xs @ ys) = bos_mset xs + bos_mset ys"
  by (simp_all add: bos_mset_def)

lemma bos_mset_sum: "bos_mset objs = sum_mset (image_mset (\<lambda>n. mset (bos n)) (mset objs))"
  by (induction objs) simp_all

lemma bos_mset_insert: "bos_mset (interval_tree_insert n objs) = mset (bos n) + bos_mset objs"
  by (simp add: bos_mset_sum mset_interval_tree_insert)

lemma bos_mset_remove:
  "n \<in> set objs \<Longrightarrow> bos_mset (interval_tree_remove n objs) + mset (bos n) = bos_mset objs"
  by (induction objs) (auto simp: interval_tree_remove_def)

lemma register_loop_mset:
  "amdgpu_mn_register_loop objs addr e bs node = (objs', a', e', bs', node') \<Longrightarrow>
   bos_mset objs' + mset bs' = bos_mset objs + mset bs"
proof (induction objs addr e bs node rule: amdgpu_mn_register_loop.induct)
  case (1 objs addr e bs node)
  show ?case
  proof (cases "interval_tree_iter_first objs addr e")
    case None
    with "1.prems" show ?thesis by (simp add: register_loop_None)
  next
    case (Some itn)
    then have "itn \<in> set objs" by (auto simp: interval_tree_iter_first_def find_Some_iff)
    from bos_mset_remove [OF this] "1.IH" [OF Some] "1.prems" Some
    show ?thesis by (simp add: register_loop_Some add.assoc add.commute)
  qed
qed

lemma registered_iff: "registered adev k b \<longleftrightarrow> b \<in># bos_mset (nodes_of adev k)"
  by (auto simp: registered_def bos_mset_def)

lemma count_01:
  assumes "count M a = (if P then 1 else 0)"
  shows "count M a = (if a \<in># M then 1 else 0)"
proof (cases "a \<in># M")
  case True
  then have "count M a \<noteq> 0" by (simp add: not_in_iff [symmetric])
  with assms True show ?thesis by (simp split: if_splits)
next
  case False
  then show ?thesis by (simp add: not_in_iff)
qed

lemma backref_count_ok_iff: "backref_count_ok adev \<longleftrightarrow> backref_ok adev \<and> linked_once adev"
proof
  assume j: "backref_count_ok adev"
  have "backref_ok adev"
    unfolding backref_ok_def registered_iff
  proof (intro allI)
    fix b k
    from j have "count (bos_mset (nodes_of adev k)) b = (if mn (bo adev b) = Some k then 1 else 0)"
      by (simp add: backref_count_ok_def)
    then show "(mn (bo adev b) = Some k) = (b \<in># bos_mset (nodes_of adev k))"
      by (cases "mn (bo adev b) = Some k") (simp_all add: not_in_iff count_inI)
  qed
  moreover have "linked_once adev"
    unfolding linked_once_def distinct_count_atmost_1
  proof (intro allI)
    fix k a
    let ?M = "mset (concat (map bos (nodes_of adev k)))"
    from j have c: "count ?M a = (if mn (bo adev a) = Some k then 1 else 0)"
      by (simp add: backref_count_ok_def bos_mset_def)
    from c have "count ?M a = (if a \<in># ?M then 1 else 0)"
      by (rule count_01)
    then show "count ?M a = (if a \<in> set (concat (map bos (nodes_of adev k))) then 1 else 0)"
      by simp
  qed
  ultimately show "backref_ok adev \<and> linked_once adev" ..
next
  assume a: "backref_ok adev \<and> linked_once adev"
  show "backref_count_ok adev"
    unfolding backref_count_ok_def
  proof (intro allI)
    fix k b
    from a have d: "distinct (concat (map bos (nodes_of adev k)))" by (simp add: linked_once_def)
    from a have r: "(mn (bo adev b) = Some k) = (b \<in># bos_mset (nodes_of adev k))"
      by (simp add: backref_ok_def registered_iff)
    from d have "count (bos_mset (nodes_of adev k)) b = (if b \<in># bos_mset (nodes_of adev k) then 1 else 0)"
      by (simp add: bos_mset_def distinct_count_atmost_1)
    with r show "count (bos_mset (nodes_of adev k)) b = (if mn (bo adev b) = Some k then 1 else 0)"
      by simp
  qed
qed

lemma register_backref_count_ok:
  assumes j: "backref_count_ok adev" and un: "mn (bo adev b) = None"
  shows "backref_count_ok (snd (amdgpu_mn_register env adev b addr))"
proof -
  obtain r adev' where r: "amdgpu_mn_register env adev b addr = (r, adev')"
    by (cases "amdgpu_mn_register env adev b addr")
  have "backref_count_ok adev'"
  proof (cases "r = 0")
    case False
    from register_failure(1,2) [OF r False] j show ?thesis by (simp add: backref_count_ok_def)
  next
    case True
    with r have "amdgpu_mn_register env adev b addr = (0, adev')" by simp
    from register_success [OF this] obtain objs a' e' bs' node' where
      l: "amdgpu_mn_register_loop (nodes_of adev (req_key env adev b)) addr (req_last adev b addr) [] None =
            (objs, a', e', bs', node')"
      and n: "nodes_of adev' (req_key env adev b) =
            interval_tree_insert \<lparr>it_start = a', it_last = e', bos = b # bs'\<rparr> objs"
      and o: "\<forall>k. k \<noteq> req_key env adev b \<longrightarrow> nodes_of adev' k = nodes_of adev k"
      and h: "bo adev' = (bo adev)(b := (bo adev b)\<lparr>mn := Some (req_key env adev b)\<rparr>)"
      by blast
    from register_loop_mset [OF l] n
    have m: "bos_mset (nodes_of adev' (req_key env adev b)) =
        add_mset b (bos_mset (nodes_of adev (req_key env adev b)))"
      by (simp add: bos_mset_insert add.commute)
    show ?thesis
      unfolding backref_count_ok_def
    proof (intro allI)
      fix k c
      show "count (bos_mset (nodes_of adev' k)) c = (if mn (bo adev' c) = Some k then 1 else 0)"
        using j un m o h by (cases "k = req_key env adev b"; cases "c = b") (auto simp: backref_count_ok_def)
    qed
  qed
  with r show ?thesis by simp
qed


lemma remove1_eq_Nil: "b \<in> set l \<Longrightarrow> remove1 b l = [] \<longleftrightarrow> l = [b]"
  by (cases l) (auto split: if_splits)

lemma unregister_nodes:
  assumes "distinct (concat (map bos objs))" and "find (\<lambda>n. b \<in> set (bos n)) objs = Some node"
  shows "(if remove1 b (bos node) = [] then interval_tree_remove node objs
          else map (\<lambda>n. if n = node then n\<lparr>bos := remove1 b (bos node)\<rparr> else n) objs) =
         map (\<lambda>n. n\<lparr>bos := remove1 b (bos n)\<rparr>) (filter (\<lambda>n. bos n \<noteq> [b]) objs)"
  using assms
proof (induction objs)
  case Nil
  then show ?case by simp
next
  case (Cons x xs)
  from Cons.prems(1) have d: "distinct (concat (map bos xs))"
    and dj: "set (bos x) \<inter> set (concat (map bos xs)) = {}" by simp_all
  show ?case
  proof (cases "b \<in> set (bos x)")
    case True
    with Cons.prems(2) have node: "node = x" by simp
    from True dj have nb: "\<forall>m \<in> set xs. b \<notin> set (bos m)" by auto
    then have neq: "\<forall>m \<in> set xs. m \<noteq> x" using True by auto
    from nb have keep: "filter (\<lambda>n. bos n \<noteq> [b]) xs = xs"
      by (intro filter_True) auto
    from nb have idm: "map (\<lambda>n. n\<lparr>bos := remove1 b (bos n)\<rparr>) xs = xs"
      by (intro map_idI) (simp add: remove1_idem)
    from neq have idn: "map (\<lambda>n. if n = x then n\<lparr>bos := remove1 b (bos x)\<rparr> else n) xs = xs"
      by (intro map_idI) simp
    show ?thesis
      unfolding node using True
      by (simp add: remove1_eq_Nil keep idm idn interval_tree_remove_def)
  next
    case False
    with Cons.prems(2) have f: "find (\<lambda>n. b \<in> set (bos n)) xs = Some node" by simp
    then have "b \<in> set (bos node)" by (auto simp: find_Some_iff)
    with False have ne: "x \<noteq> node" by auto
    from False have "bos x \<noteq> [b]" by auto
    with Cons.IH [OF d f] False ne show ?thesis
      by (auto simp: interval_tree_remove_def remove1_idem)
  qed
qed

lemma concat_unregistered:
  "distinct (concat (map bos objs)) \<Longrightarrow>
   concat (map bos (map (\<lambda>n. n\<lparr>bos := remove1 b (bos n)\<rparr>) (filter (\<lambda>n. bos n \<noteq> [b]) objs))) =
     filter (\<lambda>c. c \<noteq> b) (concat (map bos objs))"
proof (induction objs)
  case Nil
  then show ?case by simp
next
  case (Cons x xs)
  from Cons.prems have dx: "distinct (bos x)" and d: "distinct (concat (map bos xs))" by simp_all
  from dx have "remove1 b (bos x) = filter (\<lambda>c. c \<noteq> b) (bos x)"
    by (simp add: distinct_remove1_removeAll removeAll_filter_not_eq) (metis)
  with Cons.IH [OF d] show ?case by auto
qed

lemma unregister_result:
  assumes j: "backref_count_ok adev" and m: "mn (bo adev b) = Some key"
  shows "nodes_of (amdgpu_mn_unregister adev b) key =
           map (\<lambda>n. n\<lparr>bos := remove1 b (bos n)\<rparr>) (filter (\<lambda>n. bos n \<noteq> [b]) (nodes_of adev key))"
    and "k \<noteq> key \<Longrightarrow> nodes_of (amdgpu_mn_unregister adev b) k = nodes_of adev k"
    and "bo (amdgpu_mn_unregister adev b) = (bo adev)(b := (bo adev b)\<lparr>mn := None\<rparr>)"
proof -
  from j have bl: "backref_ok adev" "linked_once adev" by (simp_all add: backref_count_ok_iff)
  from bl(1) m have "registered adev key b" by (simp add: backref_ok_def)
  then obtain n where n: "n \<in> set (nodes_of adev key)" "b \<in> set (bos n)"
    by (auto simp: registered_def)
  then obtain rmn where rmn: "mn_hash adev key = Some rmn"
    by (cases "mn_hash adev key") (auto simp: nodes_of_def)
  then have o: "nodes_of adev key = objects rmn" by (simp add: nodes_of_def)
  from n o obtain node where f: "find (\<lambda>n. b \<in> set (bos n)) (objects rmn) = Some node"
    by (cases "find (\<lambda>n. b \<in> set (bos n)) (objects rmn)") (auto simp: find_None_iff)
  from bl(2) o have d: "distinct (concat (map bos (objects rmn)))"
    by (metis linked_once_def)
  have u: "amdgpu_mn_unregister adev b =
      adev\<lparr>bo := (bo adev)(b := (bo adev b)\<lparr>mn := None\<rparr>),
           mn_hash := (mn_hash adev)(key \<mapsto> rmn\<lparr>objects :=
             map (\<lambda>n. n\<lparr>bos := remove1 b (bos n)\<rparr>) (filter (\<lambda>n. bos n \<noteq> [b]) (objects rmn))\<rparr>)\<rparr>"
    using unregister_nodes [OF d f] by (simp add: amdgpu_mn_unregister_def m rmn f)
  show "nodes_of (amdgpu_mn_unregister adev b) key =
           map (\<lambda>n. n\<lparr>bos := remove1 b (bos n)\<rparr>) (filter (\<lambda>n. bos n \<noteq> [b]) (nodes_of adev key))"
    unfolding o by (simp add: u nodes_of_def)
  show "k \<noteq> key \<Longrightarrow> nodes_of (amdgpu_mn_unregister adev b) k = nodes_of adev k"
    by (simp add: u nodes_of_def)
  show "bo (amdgpu_mn_unregister adev b) = (bo adev)(b := (bo adev b)\<lparr>mn := None\<rparr>)"
    by (simp add: u)
qed

lemma unregister_null: "mn (bo adev b) = None \<Longrightarrow> amdgpu_mn_unregister adev b = adev"
  by (simp add: amdgpu_mn_unregister_def)

lemma unregister_backref_count_ok:
  assumes j: "backref_count_ok adev"
  shows "backref_count_ok (amdgpu_mn_unregister adev b)"
proof (cases "mn (bo adev b)")
  case None
  with j show ?thesis by (simp add: unregister_null)
next
  case (Some key)
  note u = unregister_result [OF j Some]
  from j have "linked_once adev" by (simp add: backref_count_ok_iff)
  then have d: "distinct (concat (map bos (nodes_of adev key)))" by (simp add: linked_once_def)
  have c: "bos_mset (nodes_of (amdgpu_mn_unregister adev b) key) =
      filter_mset (\<lambda>c. c \<noteq> b) (bos_mset (nodes_of adev key))"
    unfolding u(1) bos_mset_def concat_unregistered [OF d] by simp
  show ?thesis
    unfolding backref_count_ok_def
  proof (intro allI)
    fix k c
    from j have jk: "count (bos_mset (nodes_of adev k)) c = (if mn (bo adev c) = Some k then 1 else 0)"
      by (simp add: backref_count_ok_def)
    show "count (bos_mset (nodes_of (amdgpu_mn_unregister adev b) k)) c =
        (if mn (bo (amdgpu_mn_unregister adev b) c) = Some k then 1 else 0)"
    proof (cases "k = key")
      case True
      then show ?thesis using jk c by (simp add: u(3))
    next
      case False
      then show ?thesis using jk Some by (simp add: u(2,3))
    qed
  qed
qed

lemma clear_bos:
  "fold (\<lambda>b h. h(b := (h b)\<lparr>mn := None\<rparr>)) bs h =
     (\<lambda>c. if c \<in> set bs then (h c)\<lparr>mn := None\<rparr> else h c)"
  by (induction bs arbitrary: h) (auto simp: fun_eq_iff)

lemma clear_nodes:
  "fold (\<lambda>node h. fold (\<lambda>b h. h(b := (h b)\<lparr>mn := None\<rparr>)) (bos node) h) objs h =
     (\<lambda>c. if c \<in> set (concat (map bos objs)) then (h c)\<lparr>mn := None\<rparr> else h c)"
  by (induction objs arbitrary: h) (auto simp: fun_eq_iff clear_bos)

lemma destroy_result:
  "nodes_of (amdgpu_mn_destroy adev key) k = (if k = key then [] else nodes_of adev k)"
  "bo (amdgpu_mn_destroy adev key) =
     (\<lambda>c. if registered adev key c then (bo adev c)\<lparr>mn := None\<rparr> else bo adev c)"
  by (auto simp: amdgpu_mn_destroy_def nodes_of_def clear_nodes registered_def fun_eq_iff
      split: option.splits)

lemma destroy_backref_count_ok:
  assumes j: "backref_count_ok adev"
  shows "backref_count_ok (amdgpu_mn_destroy adev key)"
  unfolding backref_count_ok_def
proof (intro allI)
  fix k c
  from j have jk: "count (bos_mset (nodes_of adev k)) c = (if mn (bo adev c) = Some k then 1 else 0)"
    by (simp add: backref_count_ok_def)
  from j have "backref_ok adev" by (simp add: backref_count_ok_iff)
  then have r: "registered adev key c \<longleftrightarrow> mn (bo adev c) = Some key"
    by (simp add: backref_ok_def)
  show "count (bos_mset (nodes_of (amdgpu_mn_destroy adev key) k)) c =
      (if mn (bo (amdgpu_mn_destroy adev key) c) = Some k then 1 else 0)"
    using jk r by (auto simp: destroy_result)
qed

lemma calls_backref_count_ok: "backref_count_ok adev \<Longrightarrow> well_used adev calls \<Longrightarrow> backref_count_ok (mn_calls adev calls)"
proof (induction calls arbitrary: adev)
  case Nil
  then show ?case by simp
next
  case (Cons c calls)
  then show ?case
    by (cases c) (simp_all add: register_backref_count_ok unregister_backref_count_ok destroy_backref_count_ok)
qed

lemma fresh_backref_count_ok: "backref_count_ok (fresh_device sz kf)"
  by (simp add: backref_count_ok_def fresh_device_def nodes_of_def)

section \<open>A failing registration\<close>

text \<open>
  Claim C10.  When \<^verbatim>\<open>amdgpu_mn_register\<close> returns an error, the buffer objects with
  their back-references are as before, every context has the same nodes with the
  same lists as before (a key without context has no nodes), and every context that
  existed is unchanged.  The device is unchanged altogether, or the call has created
  the context of its key, which was absent and now is in the hash table without
  nodes.  If \<^verbatim>\<open>amdgpu_mn_get\<close> succeeded, the error is \<^verbatim>\<open>-ENOMEM\<close> from the
  allocation of a node, and no node of the context overlapped the requested range.
\<close>

theorem register_failure_changes_nothing:
  assumes "amdgpu_mn_register env adev b addr = (r, adev')" and "r \<noteq> 0"
  shows "bo adev' = bo adev \<and>
    (\<forall>k. nodes_of adev' k = nodes_of adev k) \<and>
    (\<forall>k rmn. mn_hash adev k = Some rmn \<longrightarrow> mn_hash adev' k = Some rmn) \<and>
    (adev' = adev \<or>
     mn_hash adev (req_key env adev b) = None \<and>
     adev' = adev\<lparr>mn_hash := (mn_hash adev)(req_key env adev b \<mapsto>
        \<lparr>mm = current_mm env,
         mn_type = (if kfd_bo (bo adev b) \<noteq> 0 then AMDGPU_MN_TYPE_HSA else AMDGPU_MN_TYPE_GFX),
         objects = [], lock = 0, recursion = 0\<rparr>)\<rparr>) \<and>
    (\<forall>key rmn.
       fst (amdgpu_mn_get env adev
              (if kfd_bo (bo adev b) \<noteq> 0 then AMDGPU_MN_TYPE_HSA else AMDGPU_MN_TYPE_GFX)) =
         Inr (key, rmn) \<longrightarrow>
       r = - ENOMEM \<and> \<not> kmalloc_node env \<and>
       interval_tree_iter_first (objects rmn) addr (req_last adev b addr) = None)"
proof -
  let ?t = "if kfd_bo (bo adev b) \<noteq> 0 then AMDGPU_MN_TYPE_HSA else AMDGPU_MN_TYPE_GFX"
  note f = register_failure [OF assms]
  have c1: "bo adev' = bo adev" by (rule f(1))
  have c2: "\<forall>k. nodes_of adev' k = nodes_of adev k" using f(2) by blast
  have c3: "\<forall>k rmn. mn_hash adev k = Some rmn \<longrightarrow> mn_hash adev' k = Some rmn"
    using f(3) by blast
  obtain g adev1 where g: "amdgpu_mn_get env adev ?t = (g, adev1)"
    by (cases "amdgpu_mn_get env adev ?t")
  have a1: "adev' = adev1"
  proof (cases g)
    case (Inl err)
    with g assms(1) show ?thesis by (simp add: register_unfold_err)
  next
    case (Inr kr)
    obtain key1 rmn1 where kr: "kr = (key1, rmn1)" by (cases kr)
    obtain objs a' e' bs' node' where
      l: "amdgpu_mn_register_loop (objects rmn1) addr (req_last adev b addr) [] None =
           (objs, a', e', bs', node')"
      by (cases "amdgpu_mn_register_loop (objects rmn1) addr (req_last adev b addr) [] None")
    from g Inr kr have g1: "amdgpu_mn_get env adev ?t = (Inr (key1, rmn1), adev1)" by simp
    from register_unfold [OF g1 l] assms show ?thesis by (auto split: if_splits)
  qed
  have c4: "adev' = adev \<or>
     mn_hash adev (req_key env adev b) = None \<and>
     adev' = adev\<lparr>mn_hash := (mn_hash adev)(req_key env adev b \<mapsto>
        \<lparr>mm = current_mm env, mn_type = ?t, objects = [], lock = 0, recursion = 0\<rparr>)\<rparr>"
    using g unfolding a1 req_key_def
    by (auto simp: amdgpu_mn_get_def Let_def split: if_splits option.splits)
  have c5: "\<forall>key rmn. fst (amdgpu_mn_get env adev ?t) = Inr (key, rmn) \<longrightarrow>
       r = - ENOMEM \<and> \<not> kmalloc_node env \<and>
       interval_tree_iter_first (objects rmn) addr (req_last adev b addr) = None"
  proof (intro allI impI)
    fix key rmn
    assume k: "fst (amdgpu_mn_get env adev ?t) = Inr (key, rmn)"
    with g have g1: "amdgpu_mn_get env adev ?t = (Inr (key, rmn), adev1)" by simp
    obtain objs a' e' bs' node' where
      l: "amdgpu_mn_register_loop (objects rmn) addr (req_last adev b addr) [] None =
           (objs, a', e', bs', node')"
      by (cases "amdgpu_mn_register_loop (objects rmn) addr (req_last adev b addr) [] None")
    from register_unfold [OF g1 l] assms have "r = - ENOMEM" by (auto split: if_splits)
    with f(4) [OF k] show "r = - ENOMEM \<and> \<not> kmalloc_node env \<and>
       interval_tree_iter_first (objects rmn) addr (req_last adev b addr) = None" by simp
  qed
  from c1 c2 c3 c4 c5 show ?thesis by (intro conjI)
qed

text \<open>
  A call that fails in the allocation of the node, on a device without contexts.
\<close>

theorem register_failure_changes_nothing_witness:
  "amdgpu_mn_register (env_ok 4096\<lparr>kmalloc_node := False\<rparr>)
       (fresh_device (\<lambda>b. 1000) (\<lambda>b. 0)) 1 0 =
     (- 12, snd (amdgpu_mn_register (env_ok 4096\<lparr>kmalloc_node := False\<rparr>)
       (fresh_device (\<lambda>b. 1000) (\<lambda>b. 0)) 1 0)) \<and>
   bo (snd (amdgpu_mn_register (env_ok 4096\<lparr>kmalloc_node := False\<rparr>)
       (fresh_device (\<lambda>b. 1000) (\<lambda>b. 0)) 1 0)) = bo (fresh_device (\<lambda>b. 1000) (\<lambda>b. 0)) \<and>
   nodes_of (snd (amdgpu_mn_register (env_ok 4096\<lparr>kmalloc_node := False\<rparr>)
       (fresh_device (\<lambda>b. 1000) (\<lambda>b. 0)) 1 0)) 4096 = []"
proof -
  let ?env = "env_ok 4096\<lparr>kmalloc_node := False\<rparr>"
  let ?F = "fresh_device (\<lambda>b. 1000) (\<lambda>b. 0)"
  have h1: "amdgpu_mn_register ?env ?F 1 0 = (- 12, snd (amdgpu_mn_register ?env ?F 1 0))"
    by (simp add: fresh_device_def env_ok_def amdgpu_mn_register_def amdgpu_mn_get_def
      AMDGPU_MN_KEY_def interval_tree_iter_first_def Let_def register_loop_None ENOMEM_def)
  have h2: "(- 12 :: int) \<noteq> 0" by simp
  note t = register_failure_changes_nothing [OF h1 h2]
  from t have a: "bo (snd (amdgpu_mn_register ?env ?F 1 0)) = bo ?F" by (rule conjunct1)
  from t have "\<forall>k. nodes_of (snd (amdgpu_mn_register ?env ?F 1 0)) k = nodes_of ?F k"
    by (elim conjE)
  then have b: "nodes_of (snd (amdgpu_mn_register ?env ?F 1 0)) 4096 = []"
    by (simp add: nodes_of_def fresh_device_def)
  from h1 a b show ?thesis by (intro conjI)
qed

section \<open>Back-references over sequences of calls\<close>

lemma register_sets_backref:
  "amdgpu_mn_register env adev b addr = (0, adev') \<Longrightarrow> mn (bo adev' b) = Some (req_key env adev b)"
  using register_success [of env adev b addr adev'] by auto

text \<open>
  Claim C5 says that after every sequence of calls the back-reference of a buffer
  object is \<^verbatim>\<open>NULL\<close> exactly when the buffer object is in no list.  It does not
  hold when \<^verbatim>\<open>amdgpu_mn_register\<close> is called for a buffer object that is registered
  already, which the function does not check: register buffer 2 (1000 bytes) at 5000
  and again at 0, then unregister it.  The second call links the buffer object into
  the list of the new node \<open>[0, 999]\<close> while the node \<open>[5000, 5999]\<close> still refers
  to it; \<^verbatim>\<open>amdgpu_mn_unregister\<close> unlinks it from the node \<open>[0, 999]\<close> (the list
  it was linked into last, and the first node of the tree that holds it), frees
  that node and clears the back-reference, and the node \<open>[5000, 5999]\<close> still
  holds the buffer object.
\<close>

theorem double_register_breaks_backref:
  "nodes_of (mn_calls (fresh_device (\<lambda>b. 1000) (\<lambda>b. 0))
      [Register (env_ok 4096) 2 5000, Register (env_ok 4096) 2 0]) 4096 =
     [\<lparr>it_start = 0, it_last = 999, bos = [2]\<rparr>, \<lparr>it_start = 5000, it_last = 5999, bos = [2]\<rparr>] \<and>
   nodes_of (mn_calls (fresh_device (\<lambda>b. 1000) (\<lambda>b. 0))
      [Register (env_ok 4096) 2 5000, Register (env_ok 4096) 2 0, Unregister 2]) 4096 =
     [\<lparr>it_start = 5000, it_last = 5999, bos = [2]\<rparr>] \<and>
   mn (bo (mn_calls (fresh_device (\<lambda>b. 1000) (\<lambda>b. 0))
      [Register (env_ok 4096) 2 5000, Register (env_ok 4096) 2 0, Unregister 2]) 2) = None \<and>
   registered (mn_calls (fresh_device (\<lambda>b. 1000) (\<lambda>b. 0))
      [Register (env_ok 4096) 2 5000, Register (env_ok 4096) 2 0, Unregister 2]) 4096 2 \<and>
   \<not> backref_ok (mn_calls (fresh_device (\<lambda>b. 1000) (\<lambda>b. 0))
      [Register (env_ok 4096) 2 5000, Register (env_ok 4096) 2 0, Unregister 2])"
proof -
  let ?F = "fresh_device (\<lambda>b. 1000) (\<lambda>b. 0)"
  let ?s = "mn_calls ?F [Register (env_ok 4096) 2 5000, Register (env_ok 4096) 2 0, Unregister 2]"
  have a: "nodes_of (mn_calls ?F [Register (env_ok 4096) 2 5000, Register (env_ok 4096) 2 0]) 4096 =
     [\<lparr>it_start = 0, it_last = 999, bos = [2]\<rparr>, \<lparr>it_start = 5000, it_last = 5999, bos = [2]\<rparr>]"
    by (simp add: fresh_device_def env_ok_def amdgpu_mn_register_def amdgpu_mn_get_def
      AMDGPU_MN_KEY_def interval_tree_iter_first_def interval_tree_insert_def nodes_of_def
      interval_tree_remove_def it_overlaps_def Let_def register_loop_None register_loop_Some)
  have b: "nodes_of ?s 4096 = [\<lparr>it_start = 5000, it_last = 5999, bos = [2]\<rparr>]"
    by (simp add: fresh_device_def env_ok_def amdgpu_mn_register_def amdgpu_mn_get_def
      AMDGPU_MN_KEY_def interval_tree_iter_first_def interval_tree_insert_def nodes_of_def
      interval_tree_remove_def it_overlaps_def Let_def register_loop_None register_loop_Some
      amdgpu_mn_unregister_def)
  have c: "mn (bo ?s 2) = None"
    by (simp add: fresh_device_def env_ok_def amdgpu_mn_register_def amdgpu_mn_get_def
      AMDGPU_MN_KEY_def interval_tree_iter_first_def interval_tree_insert_def nodes_of_def
      interval_tree_remove_def it_overlaps_def Let_def register_loop_None register_loop_Some
      amdgpu_mn_unregister_def)
  have d: "registered ?s 4096 2" unfolding registered_def b by simp
  have e: "\<not> backref_ok ?s"
  proof
    assume "backref_ok ?s"
    then have "(mn (bo ?s 2) = Some 4096) = registered ?s 4096 2"
      unfolding backref_ok_def by blast
    with c d show False by simp
  qed
  from a b c d e show ?thesis by (intro conjI)
qed

text \<open>
  Claim C5 as amended.  Start from a device on which the back-reference of a buffer
  object names a context exactly when the buffer object is in the list of a node of
  that context, and no buffer object is linked twice; a device without contexts and
  registrations is one.  After any sequence of calls of \<^verbatim>\<open>amdgpu_mn_register\<close>,
  \<^verbatim>\<open>amdgpu_mn_unregister\<close> and \<^verbatim>\<open>amdgpu_mn_destroy\<close> in which
  \<^verbatim>\<open>amdgpu_mn_register\<close> is called for buffer objects whose back-reference is
  \<^verbatim>\<open>NULL\<close> at that point, the same holds: the back-reference is not \<^verbatim>\<open>NULL\<close>
  exactly when the buffer object is in the list of some node, and then it names the
  context of that node.  A successful \<^verbatim>\<open>amdgpu_mn_register\<close> sets the back-reference
  to the context of the call, \<^verbatim>\<open>amdgpu_mn_unregister\<close> clears it, and
  \<^verbatim>\<open>amdgpu_mn_destroy\<close> clears it for every buffer object of the context and leaves
  the context without nodes.
\<close>

theorem backref_tracks_registration:
  assumes "backref_ok adev" and "linked_once adev" and "well_used adev calls"
  shows "backref_ok (mn_calls adev calls) \<and> linked_once (mn_calls adev calls) \<and>
    (\<forall>b. (mn (bo (mn_calls adev calls) b) \<noteq> None) =
          (\<exists>key. registered (mn_calls adev calls) key b)) \<and>
    (\<forall>b key. registered (mn_calls adev calls) key b \<longrightarrow>
          mn (bo (mn_calls adev calls) b) = Some key) \<and>
    (\<forall>env b addr adev'. amdgpu_mn_register env adev b addr = (0, adev') \<longrightarrow>
          mn (bo adev' b) = Some (req_key env adev b)) \<and>
    (\<forall>b. mn (bo (amdgpu_mn_unregister adev b) b) = None) \<and>
    (\<forall>key b. registered adev key b \<longrightarrow> mn (bo (amdgpu_mn_destroy adev key) b) = None) \<and>
    (\<forall>key. nodes_of (amdgpu_mn_destroy adev key) key = []) \<and>
    backref_ok (fresh_device sz kf) \<and> linked_once (fresh_device sz kf)"
proof -
  from assms(1,2) have j: "backref_count_ok adev" by (simp add: backref_count_ok_iff)
  from calls_backref_count_ok [OF j assms(3)]
  have c12: "backref_ok (mn_calls adev calls)" "linked_once (mn_calls adev calls)"
    by (simp_all add: backref_count_ok_iff)
  from c12(1) have c3: "\<forall>b. (mn (bo (mn_calls adev calls) b) \<noteq> None) =
          (\<exists>key. registered (mn_calls adev calls) key b)"
    unfolding backref_ok_def by (metis not_Some_eq)
  from c12(1) have c4: "\<forall>b key. registered (mn_calls adev calls) key b \<longrightarrow>
          mn (bo (mn_calls adev calls) b) = Some key"
    by (simp add: backref_ok_def)
  have c5: "\<forall>env b addr adev'. amdgpu_mn_register env adev b addr = (0, adev') \<longrightarrow>
          mn (bo adev' b) = Some (req_key env adev b)"
    by (blast intro: register_sets_backref)
  have c6: "\<forall>b. mn (bo (amdgpu_mn_unregister adev b) b) = None"
  proof
    fix b
    show "mn (bo (amdgpu_mn_unregister adev b) b) = None"
    proof (cases "mn (bo adev b)")
      case None
      then show ?thesis by (simp add: unregister_null)
    next
      case (Some key)
      from unregister_result(3) [OF j Some] show ?thesis by simp
    qed
  qed
  have c7: "\<forall>key b. registered adev key b \<longrightarrow> mn (bo (amdgpu_mn_destroy adev key) b) = None"
    by (simp add: destroy_result)
  have c8: "\<forall>key. nodes_of (amdgpu_mn_destroy adev key) key = []"
    by (simp add: destroy_result)
  have c9: "backref_ok (fresh_device sz kf)" "linked_once (fresh_device sz kf)"
    using fresh_backref_count_ok [of sz kf] by (simp_all add: backref_count_ok_iff)
  from c12 c3 c4 c5 c6 c7 c8 c9 show ?thesis by (intro conjI)
qed

text \<open>
  Two overlapping registrations and the removal of the first, on a device without
  contexts.
\<close>

theorem backref_tracks_registration_witness:
  "backref_ok (fresh_device (\<lambda>b. 1000) (\<lambda>b. 0)) \<and>
   linked_once (fresh_device (\<lambda>b. 1000) (\<lambda>b. 0)) \<and>
   well_used (fresh_device (\<lambda>b. 1000) (\<lambda>b. 0))
     [Register (env_ok 4096) 2 0, Register (env_ok 4096) 3 500, Unregister 2] \<and>
   backref_ok (mn_calls (fresh_device (\<lambda>b. 1000) (\<lambda>b. 0))
     [Register (env_ok 4096) 2 0, Register (env_ok 4096) 3 500, Unregister 2]) \<and>
   mn (bo (mn_calls (fresh_device (\<lambda>b. 1000) (\<lambda>b. 0))
     [Register (env_ok 4096) 2 0, Register (env_ok 4096) 3 500, Unregister 2]) 3) = Some 4096 \<and>
   mn (bo (mn_calls (fresh_device (\<lambda>b. 1000) (\<lambda>b. 0))
     [Register (env_ok 4096) 2 0, Register (env_ok 4096) 3 500, Unregister 2]) 2) = None"
proof -
  let ?F = "fresh_device (\<lambda>b. 1000) (\<lambda>b. 0)"
  let ?cs = "[Register (env_ok 4096) 2 0, Register (env_ok 4096) 3 500, Unregister 2]"
  have h1: "backref_ok ?F"
    by (simp add: backref_ok_def registered_def nodes_of_def fresh_device_def)
  have h2: "linked_once ?F"
    by (simp add: linked_once_def nodes_of_def fresh_device_def)
  have h3: "well_used ?F ?cs"
    by (simp add: fresh_device_def env_ok_def amdgpu_mn_register_def amdgpu_mn_get_def
      AMDGPU_MN_KEY_def interval_tree_iter_first_def interval_tree_insert_def
      it_overlaps_def Let_def register_loop_None)
  note t = backref_tracks_registration [OF h1 h2 h3]
  from t have a: "backref_ok (mn_calls ?F ?cs)" by (rule conjunct1)
  have v: "mn (bo (mn_calls ?F ?cs) 3) = Some 4096" "mn (bo (mn_calls ?F ?cs) 2) = None"
    by (simp_all add: fresh_device_def env_ok_def amdgpu_mn_register_def amdgpu_mn_get_def
      AMDGPU_MN_KEY_def interval_tree_iter_first_def interval_tree_insert_def
      interval_tree_remove_def it_overlaps_def Let_def register_loop_None register_loop_Some
      amdgpu_mn_unregister_def)
  from h1 h2 h3 a v show ?thesis by (intro conjI)
qed

section \<open>Unregistering\<close>

lemma unregister_scenario:
  assumes ab: "a \<noteq> b" and same: "(kf a \<noteq> 0) = (kf b \<noteq> 0)"
    and ov: "it_overlaps \<lparr>it_start = addr_a, it_last = addr_a + sz a - 1\<rparr> addr_b (addr_b + sz b - 1)"
  shows "map_option objects
     (mn_hash (mn_calls (fresh_device sz kf)
        [Register (env_ok m) a addr_a, Register (env_ok m) b addr_b, Unregister a, Unregister b])
      (req_key (env_ok m) (fresh_device sz kf) a)) = Some []"
  using assms
  by (simp add: fresh_device_def env_ok_def amdgpu_mn_register_def amdgpu_mn_get_def
      req_key_def interval_tree_iter_first_def interval_tree_insert_def
      interval_tree_remove_def it_overlaps_def Let_def register_loop_None register_loop_Some
      amdgpu_mn_unregister_def)


text \<open>
  Claim C7, on a device that satisfies \<open>backref_ok\<close> and \<open>linked_once\<close>.
  \<^verbatim>\<open>amdgpu_mn_unregister\<close> changes nothing when the back-reference is \<^verbatim>\<open>NULL\<close>.
  Otherwise, in the context the back-reference names, the buffer object is taken out
  of the list of its node, and the node whose list held only this buffer object is
  taken out of the index; the other contexts keep their nodes.  The back-reference
  is \<^verbatim>\<open>NULL\<close> afterwards, the buffer object is registered nowhere, and the other
  buffer objects are registered as before.  For two different buffer objects of the
  same kind: after registering the first, registering the second at a range that
  overlaps the node of the first, unregistering the first and unregistering the
  second on a device without contexts, the context has no nodes.
\<close>

theorem unregister_removes_registration:
  assumes "backref_ok adev" and "linked_once adev"
  shows "(mn (bo adev b) = None \<longrightarrow> amdgpu_mn_unregister adev b = adev) \<and>
    (\<forall>key. mn (bo adev b) = Some key \<longrightarrow>
       nodes_of (amdgpu_mn_unregister adev b) key =
         map (\<lambda>n. n\<lparr>bos := remove1 b (bos n)\<rparr>)
           (filter (\<lambda>n. bos n \<noteq> [b]) (nodes_of adev key)) \<and>
       (\<forall>k. k \<noteq> key \<longrightarrow> nodes_of (amdgpu_mn_unregister adev b) k = nodes_of adev k)) \<and>
    mn (bo (amdgpu_mn_unregister adev b) b) = None \<and>
    (\<forall>c. c \<noteq> b \<longrightarrow> bo (amdgpu_mn_unregister adev b) c = bo adev c) \<and>
    (\<forall>k. \<not> registered (amdgpu_mn_unregister adev b) k b) \<and>
    (\<forall>k c. c \<noteq> b \<longrightarrow> registered (amdgpu_mn_unregister adev b) k c = registered adev k c) \<and>
    (\<forall>a b' sz kf m addr_a addr_b.
       a \<noteq> b' \<and> (kf a \<noteq> 0) = (kf b' \<noteq> 0) \<and>
       it_overlaps \<lparr>it_start = addr_a, it_last = addr_a + sz a - 1\<rparr> addr_b (addr_b + sz b' - 1) \<longrightarrow>
       map_option objects
         (mn_hash (mn_calls (fresh_device sz kf)
            [Register (env_ok m) a addr_a, Register (env_ok m) b' addr_b,
             Unregister a, Unregister b'])
          (req_key (env_ok m) (fresh_device sz kf) a)) = Some [])"
proof -
  from assms have j: "backref_count_ok adev" by (simp add: backref_count_ok_iff)
  then have "backref_count_ok (amdgpu_mn_unregister adev b)" by (rule unregister_backref_count_ok)
  then have b': "backref_ok (amdgpu_mn_unregister adev b)" by (simp add: backref_count_ok_iff)
  have c1: "mn (bo adev b) = None \<longrightarrow> amdgpu_mn_unregister adev b = adev"
    by (simp add: unregister_null)
  have c2: "\<forall>key. mn (bo adev b) = Some key \<longrightarrow>
       nodes_of (amdgpu_mn_unregister adev b) key =
         map (\<lambda>n. n\<lparr>bos := remove1 b (bos n)\<rparr>)
           (filter (\<lambda>n. bos n \<noteq> [b]) (nodes_of adev key)) \<and>
       (\<forall>k. k \<noteq> key \<longrightarrow> nodes_of (amdgpu_mn_unregister adev b) k = nodes_of adev k)"
    using unregister_result(1,2) [OF j] by blast
  have c34: "mn (bo (amdgpu_mn_unregister adev b) b) = None \<and>
      (\<forall>c. c \<noteq> b \<longrightarrow> bo (amdgpu_mn_unregister adev b) c = bo adev c)"
  proof (cases "mn (bo adev b)")
    case None
    then show ?thesis by (simp add: unregister_null)
  next
    case (Some key)
    from unregister_result(3) [OF j Some] show ?thesis by simp
  qed
  then have c3: "mn (bo (amdgpu_mn_unregister adev b) b) = None"
    and c4: "\<forall>c. c \<noteq> b \<longrightarrow> bo (amdgpu_mn_unregister adev b) c = bo adev c" by simp_all
  from b' c3 have c5: "\<forall>k. \<not> registered (amdgpu_mn_unregister adev b) k b"
    unfolding backref_ok_def by (metis option.distinct(1))
  have c6: "\<forall>k c. c \<noteq> b \<longrightarrow>
      registered (amdgpu_mn_unregister adev b) k c = registered adev k c"
  proof (intro allI impI)
    fix k c assume "c \<noteq> b"
    with c4 have "bo (amdgpu_mn_unregister adev b) c = bo adev c" by simp
    with b' assms(1) show "registered (amdgpu_mn_unregister adev b) k c = registered adev k c"
      unfolding backref_ok_def by metis
  qed
  have c7: "\<forall>a b' sz kf m addr_a addr_b.
       a \<noteq> b' \<and> (kf a \<noteq> 0) = (kf b' \<noteq> 0) \<and>
       it_overlaps \<lparr>it_start = addr_a, it_last = addr_a + sz a - 1\<rparr> addr_b (addr_b + sz b' - 1) \<longrightarrow>
       map_option objects
         (mn_hash (mn_calls (fresh_device sz kf)
            [Register (env_ok m) a addr_a, Register (env_ok m) b' addr_b,
             Unregister a, Unregister b'])
          (req_key (env_ok m) (fresh_device sz kf) a)) = Some []"
    by (intro allI impI) (elim conjE, rule unregister_scenario)
  from c1 c2 c3 c4 c5 c6 c7 show ?thesis by (intro conjI)
qed

text \<open>
  After registering buffer 2 at \<open>[0, 999]\<close> and buffer 3 at \<open>[500, 1499]\<close> there is
  one node with both; unregistering buffer 2 leaves the node with buffer 3, and
  unregistering buffer 3 as well leaves no node.
\<close>

theorem unregister_removes_registration_witness:
  "backref_ok (mn_calls (fresh_device (\<lambda>b. 1000) (\<lambda>b. 0))
      [Register (env_ok 4096) 2 0, Register (env_ok 4096) 3 500]) \<and>
   linked_once (mn_calls (fresh_device (\<lambda>b. 1000) (\<lambda>b. 0))
      [Register (env_ok 4096) 2 0, Register (env_ok 4096) 3 500]) \<and>
   nodes_of (mn_calls (fresh_device (\<lambda>b. 1000) (\<lambda>b. 0))
      [Register (env_ok 4096) 2 0, Register (env_ok 4096) 3 500]) 4096 =
     [\<lparr>it_start = 0, it_last = 1499, bos = [3, 2]\<rparr>] \<and>
   nodes_of (amdgpu_mn_unregister (mn_calls (fresh_device (\<lambda>b. 1000) (\<lambda>b. 0))
      [Register (env_ok 4096) 2 0, Register (env_ok 4096) 3 500]) 2) 4096 =
     [\<lparr>it_start = 0, it_last = 1499, bos = [3]\<rparr>] \<and>
   mn (bo (amdgpu_mn_unregister (mn_calls (fresh_device (\<lambda>b. 1000) (\<lambda>b. 0))
      [Register (env_ok 4096) 2 0, Register (env_ok 4096) 3 500]) 2) 2) = None \<and>
   map_option objects
     (mn_hash (mn_calls (fresh_device (\<lambda>b. 1000) (\<lambda>b. 0))
        [Register (env_ok 4096) 2 0, Register (env_ok 4096) 3 500, Unregister 2, Unregister 3])
      4096) = Some []"
proof -
  let ?F = "fresh_device (\<lambda>b. 1000) (\<lambda>b. 0)"
  let ?cs = "[Register (env_ok 4096) 2 0, Register (env_ok 4096) 3 500]"
  have w: "well_used ?F ?cs"
    by (simp add: fresh_device_def env_ok_def amdgpu_mn_register_def amdgpu_mn_get_def
      AMDGPU_MN_KEY_def interval_tree_iter_first_def interval_tree_insert_def
      it_overlaps_def Let_def register_loop_None)
  from calls_backref_count_ok [OF fresh_backref_count_ok w]
  have h: "backref_ok (mn_calls ?F ?cs)" "linked_once (mn_calls ?F ?cs)"
    by (simp_all add: backref_count_ok_iff)
  have n: "nodes_of (mn_calls ?F ?cs) 4096 = [\<lparr>it_start = 0, it_last = 1499, bos = [3, 2]\<rparr>]"
    "mn (bo (mn_calls ?F ?cs) 2) = Some 4096"
    by (simp_all add: fresh_device_def env_ok_def amdgpu_mn_register_def amdgpu_mn_get_def
      AMDGPU_MN_KEY_def interval_tree_iter_first_def interval_tree_insert_def nodes_of_def
      interval_tree_remove_def it_overlaps_def Let_def register_loop_None register_loop_Some)
  note t = unregister_removes_registration [OF h, of 2]
  from t n(2) have "nodes_of (amdgpu_mn_unregister (mn_calls ?F ?cs) 2) 4096 =
         map (\<lambda>n. n\<lparr>bos := remove1 2 (bos n)\<rparr>)
           (filter (\<lambda>n. bos n \<noteq> [2]) (nodes_of (mn_calls ?F ?cs) 4096))"
    by blast
  then have u: "nodes_of (amdgpu_mn_unregister (mn_calls ?F ?cs) 2) 4096 =
      [\<lparr>it_start = 0, it_last = 1499, bos = [3]\<rparr>]"
    unfolding n(1) by simp
  from t have m: "mn (bo (amdgpu_mn_unregister (mn_calls ?F ?cs) 2) 2) = None" by blast
  have z: "map_option objects
     (mn_hash (mn_calls ?F
        [Register (env_ok 4096) 2 0, Register (env_ok 4096) 3 500, Unregister 2, Unregister 3])
      4096) = Some []"
    by (simp add: fresh_device_def env_ok_def amdgpu_mn_register_def amdgpu_mn_get_def
      AMDGPU_MN_KEY_def interval_tree_iter_first_def interval_tree_insert_def
      interval_tree_remove_def it_overlaps_def Let_def register_loop_None register_loop_Some
      amdgpu_mn_unregister_def)
  from h n(1) u m z show ?thesis by (intro conjI)
qed

end
